theory Spec2Isabelle
  imports Main "HOL-Library.Word"
begin

section \<open>Strings of the host language\<close>

text \<open>
  A JavaScript string is a sequence of 16-bit UTF-16 code units; \<open>text[i]\<close>, \<open>length\<close>,
  \<open>substring\<close>, \<open>substr\<close> and a regular expression without the unicode flag all count
  code units. \<open>js\<close> writes an ASCII literal as such a sequence.
\<close>

type_synonym cu = "16 word"
type_synonym jsstring = "cu list"

definition js :: "string \<Rightarrow> jsstring" where
  "js s = map of_char s"

abbreviation c_lparen :: cu where "c_lparen \<equiv> 0x28"
abbreviation c_rparen :: cu where "c_rparen \<equiv> 0x29"
abbreviation c_equals :: cu where "c_equals \<equiv> 0x3D"
abbreviation c_dquote :: cu where "c_dquote \<equiv> 0x22"
abbreviation c_squote :: cu where "c_squote \<equiv> 0x27"
abbreviation c_rdquote :: cu where "c_rdquote \<equiv> 0x201D"
abbreviation c_backslash :: cu where "c_backslash \<equiv> 0x5C"
abbreviation c_amp :: cu where "c_amp \<equiv> 0x26"
abbreviation c_lt :: cu where "c_lt \<equiv> 0x3C"
abbreviation c_gt :: cu where "c_gt \<equiv> 0x3E"

text \<open>
  \<open>String.prototype.substring(a, b)\<close> for non-negative integers: both indices are clamped
  to the length and swapped when \<open>a > b\<close>. With one argument the end is the length.
  \<open>substr(i, len)\<close> takes at most \<open>len\<close> code units from \<open>i\<close>.
\<close>

definition substring :: "jsstring \<Rightarrow> nat \<Rightarrow> nat \<Rightarrow> jsstring" where
  "substring s a b =
     (let a' = min a (length s); b' = min b (length s)
      in take (max a' b' - min a' b') (drop (min a' b') s))"

definition substringFrom :: "jsstring \<Rightarrow> nat \<Rightarrow> jsstring" where
  "substringFrom s a = substring s a (length s)"

definition substr :: "jsstring \<Rightarrow> nat \<Rightarrow> nat \<Rightarrow> jsstring" where
  "substr s i len = take len (drop i s)"

text \<open>
  \<open>/\s/.test(char)\<close> on a one-unit string: the WhiteSpace and LineTerminator
  code points of ECMAScript (tab, LF, VT, FF, CR, space, NBSP, U+1680, U+2000 to U+200A,
  U+2028, U+2029, U+202F, U+205F, U+3000, U+FEFF).
\<close>

definition isWhitespace :: "cu \<Rightarrow> bool" where
  "isWhitespace c =
     (c \<in> set [0x09, 0x0A, 0x0B, 0x0C, 0x0D, 0x20, 0xA0, 0x1680, 0x2028, 0x2029,
                0x202F, 0x205F, 0x3000, 0xFEFF]
      \<or> (0x2000 \<le> c \<and> c \<le> 0x200A))"

text \<open>
  \<open>toUpperCase\<close> is modelled on the ASCII letters and leaves every other code unit
  unchanged. The host's full Unicode mapping differs from this on non-ASCII units only, and
  there it never yields a string made of the letters A, N, D, O, R, T alone (the units
  whose image is ASCII give I, S, or one of SS, FF, FI, FL, FFI, FFL, ST; the remaining
  expansions keep a non-ASCII unit), so the comparison with \<open>'AND'\<close>, \<open>'OR'\<close> and
  \<open>'NOT'\<close> below has the same outcome under both.
\<close>

definition toUpperCase_cu :: "cu \<Rightarrow> cu" where
  "toUpperCase_cu c = (if 0x61 \<le> c \<and> c \<le> 0x7A then c - 0x20 else c)"

definition toUpperCase :: "jsstring \<Rightarrow> jsstring" where
  "toUpperCase s = map toUpperCase_cu s"

text \<open>
  \<open>s.replace(/c/g, r)\<close> for a single literal character \<open>c\<close> and a replacement
  without \<open>$\<close> patterns.
\<close>

definition replaceAll :: "cu \<Rightarrow> jsstring \<Rightarrow> jsstring \<Rightarrow> jsstring" where
  "replaceAll c r s = concat (map (\<lambda>x. if x = c then r else [x]) s)"

section \<open>Tokens\<close>

datatype TokenType = LogicalOperator | Key | Value | Quote | Parenthesis | Equals | Text

record Token =
  tok_type :: TokenType
  tok_value :: jsstring
  tok_start :: nat
  tok_end :: nat

section \<open>escapeHtml\<close>

definition escapeHtml :: "jsstring \<Rightarrow> jsstring" where
  "escapeHtml unsafe =
     replaceAll c_squote (js ''&#039;'')
       (replaceAll c_dquote (js ''&quot;'')
         (replaceAll c_gt (js ''&gt;'')
           (replaceAll c_lt (js ''&lt;'')
             (replaceAll c_amp (js ''&amp;'') unsafe))))"

section \<open>The scan loop of parseAndHighlight\<close>

definition logicalOperators :: "jsstring list" where
  "logicalOperators = [js ''AND'', js ''OR'', js ''NOT'']"

text \<open>
  The closing-quote search:
  \<open>while (i < n && (text[i] !== quoteType || (i > 0 && text[i - 1] === '\\'))) i++\<close>.
\<close>

function scanQuote :: "jsstring \<Rightarrow> cu \<Rightarrow> nat \<Rightarrow> nat" where
  "scanQuote text quoteType i =
     (if i < length text \<and> (text ! i \<noteq> quoteType \<or> (i > 0 \<and> text ! (i - 1) = c_backslash))
      then scanQuote text quoteType (i + 1) else i)"
  by pat_completeness auto
termination
  by (relation "measure (\<lambda>(text, quoteType, i). length text - i)") auto

text \<open>
  The operator loop \<open>for (const op of logicalOperators)\<close>: the first operator that matches
  case-insensitively at \<open>i\<close> and stands between whitespace or the input's ends gives the
  token and the new cursor; \<open>None\<close> is \<open>matchedOperator = false\<close>.
\<close>

fun matchOperator :: "jsstring \<Rightarrow> nat \<Rightarrow> jsstring list \<Rightarrow> (Token \<times> nat) option" where
  "matchOperator text i [] = None"
| "matchOperator text i (op # ops) =
     (if toUpperCase (substr text i (length op)) = op then
        (let before = (i = 0 \<or> isWhitespace (text ! (i - 1)));
             after = (i + length op \<ge> length text \<or> isWhitespace (text ! (i + length op)))
         in if before \<and> after then
              Some (\<lparr>tok_type = LogicalOperator,
                     tok_value = substring text i (i + length op),
                     tok_start = i, tok_end = i + length op\<rparr>, i + length op)
            else matchOperator text i ops)
      else matchOperator text i ops)"

text \<open>\<open>while (equalsPos < n && text[equalsPos] !== '=') equalsPos++\<close>\<close>

function findEquals :: "jsstring \<Rightarrow> nat \<Rightarrow> nat" where
  "findEquals text equalsPos =
     (if equalsPos < length text \<and> text ! equalsPos \<noteq> c_equals
      then findEquals text (equalsPos + 1) else equalsPos)"
  by pat_completeness auto
termination
  by (relation "measure (\<lambda>(text, equalsPos). length text - equalsPos)") auto

text \<open>\<open>while (keyEnd > keyStart && isWhitespace(text[keyEnd - 1])) keyEnd--\<close>\<close>

function trimKey :: "jsstring \<Rightarrow> nat \<Rightarrow> nat \<Rightarrow> nat" where
  "trimKey text keyStart keyEnd =
     (if keyEnd > keyStart \<and> isWhitespace (text ! (keyEnd - 1))
      then trimKey text keyStart (keyEnd - 1) else keyEnd)"
  by pat_completeness auto
termination
  by (relation "measure (\<lambda>(text, keyStart, keyEnd). keyEnd)") auto

text \<open>The bare-text run: up to whitespace, a parenthesis, an equals sign or a quote.\<close>

function scanText :: "jsstring \<Rightarrow> nat \<Rightarrow> nat" where
  "scanText text i =
     (if i < length text \<and> \<not> isWhitespace (text ! i) \<and> text ! i \<noteq> c_lparen
         \<and> text ! i \<noteq> c_rparen \<and> text ! i \<noteq> c_equals \<and> text ! i \<noteq> c_dquote
         \<and> text ! i \<noteq> c_squote \<and> text ! i \<noteq> c_rdquote
      then scanText text (i + 1) else i)"
  by pat_completeness auto
termination
  by (relation "measure (\<lambda>(text, i). length text - i)") auto

text \<open>
  The key rule and, when it does not \<open>continue\<close>, the bare-text rule: the last part of
  the loop body, reached when no operator matched.
\<close>

definition bareText :: "jsstring \<Rightarrow> nat \<Rightarrow> nat \<times> Token list" where
  "bareText text i =
     (let start = i; i' = scanText text i
      in (i', if i' > start
              then [\<lparr>tok_type = Text, tok_value = substring text start i',
                     tok_start = start, tok_end = i'\<rparr>]
              else []))"

definition keyOrText :: "jsstring \<Rightarrow> nat \<Rightarrow> nat \<times> Token list" where
  "keyOrText text i =
     (let n = length text in
      if i < n - 1 then
        (let equalsPos = findEquals text i in
         if equalsPos < n \<and> text ! equalsPos = c_equals then
           (let keyStart = i; keyEnd = trimKey text keyStart equalsPos in
            if keyEnd > keyStart then
              (keyEnd, [\<lparr>tok_type = Key, tok_value = substring text keyStart keyEnd,
                         tok_start = keyStart, tok_end = keyEnd\<rparr>])
            else bareText text i)
         else bareText text i)
      else bareText text i)"

text \<open>
  One iteration of \<open>while (i < n)\<close>, entered with \<open>i < n\<close>: the cursor after it and the
  tokens it pushed.
\<close>

definition scanStep :: "jsstring \<Rightarrow> nat \<Rightarrow> nat \<times> Token list" where
  "scanStep text i =
     (let n = length text in
      if isWhitespace (text ! i) then (i + 1, [])
      else if text ! i = c_lparen \<or> text ! i = c_rparen then
        (i + 1, [\<lparr>tok_type = Parenthesis, tok_value = [text ! i],
                  tok_start = i, tok_end = i + 1\<rparr>])
      else if text ! i = c_equals then
        (i + 1, [\<lparr>tok_type = Equals, tok_value = js ''='',
                  tok_start = i, tok_end = i + 1\<rparr>])
      else if text ! i = c_dquote \<or> text ! i = c_squote \<or> text ! i = c_rdquote then
        (let quoteType = text ! i; start = i; j = scanQuote text quoteType (i + 1) in
         if j < n \<and> text ! j = quoteType then
           (j + 1, [\<lparr>tok_type = Quote, tok_value = substring text start (j + 1),
                     tok_start = start, tok_end = j + 1\<rparr>])
         else
           (n, [\<lparr>tok_type = Quote, tok_value = substringFrom text start,
                 tok_start = start, tok_end = n\<rparr>]))
      else
        (case matchOperator text i logicalOperators of
           Some (tok, i') \<Rightarrow> (i', [tok])
         | None \<Rightarrow> keyOrText text i))"

section \<open>Every iteration advances the cursor\<close>

declare scanQuote.simps [simp del]

declare findEquals.simps [simp del]

declare trimKey.simps [simp del]

declare scanText.simps [simp del]

lemma substring_take_drop:
  "a \<le> b \<Longrightarrow> b \<le> length s \<Longrightarrow> substring s a b = take (b - a) (drop a s)"
  by (simp add: substring_def Let_def min_def max_def)

lemma substringFrom_drop: "substringFrom s a = drop a s"
  by (cases "a \<le> length s") (simp_all add: substringFrom_def substring_def Let_def min_def max_def)

lemma scanQuote_ge: "i \<le> scanQuote text q i"
proof (induction "text" q i rule: scanQuote.induct)
  case (1 t quoteType i)
  show ?case
    using "1" by (subst scanQuote.simps) (auto split: if_splits)
qed

lemma scanQuote_le: "i \<le> length text \<Longrightarrow> scanQuote text q i \<le> length text"
proof (induction "text" q i rule: scanQuote.induct)
  case (1 t quoteType i)
  show ?case
    using "1" by (subst scanQuote.simps) (auto split: if_splits)
qed

lemma findEquals_ge: "p \<le> findEquals text p"
proof (induction "text" p rule: findEquals.induct)
  case (1 t equalsPos)
  show ?case using "1" by (subst findEquals.simps) (auto split: if_splits)
qed

lemma findEquals_le: "p \<le> length text \<Longrightarrow> findEquals text p \<le> length text"
proof (induction "text" p rule: findEquals.induct)
  case (1 t equalsPos)
  show ?case using "1" by (subst findEquals.simps) (auto split: if_splits)
qed

lemma trimKey_le: "trimKey text s e \<le> e"
proof (induction "text" s e rule: trimKey.induct)
  case (1 t keyStart keyEnd)
  show ?case using "1" by (subst trimKey.simps) (auto split: if_splits)
qed

lemma trimKey_ge: "s \<le> e \<Longrightarrow> s \<le> trimKey text s e"
proof (induction "text" s e rule: trimKey.induct)
  case (1 t keyStart keyEnd)
  show ?case using "1" by (subst trimKey.simps) (auto split: if_splits)
qed

lemma scanText_ge: "i \<le> scanText text i"
proof (induction "text" i rule: scanText.induct)
  case (1 t i)
  show ?case using "1" by (subst scanText.simps) (auto split: if_splits)
qed

lemma scanText_le: "i \<le> length text \<Longrightarrow> scanText text i \<le> length text"
proof (induction "text" i rule: scanText.induct)
  case (1 t i)
  show ?case using "1" by (subst scanText.simps) (auto split: if_splits)
qed

text \<open>
  The six units that end a bare-text run besides whitespace: the parentheses, the equals
  sign and the three quote characters.
\<close>

definition isSpecial :: "cu \<Rightarrow> bool" where
  "isSpecial c = (c = c_lparen \<or> c = c_rparen \<or> c = c_equals \<or> c = c_dquote \<or> c = c_squote \<or> c = c_rdquote)"

lemma scanText_advances:
  assumes "i < length text" "\<not> isWhitespace (text ! i)" "\<not> isSpecial (text ! i)"
  shows "i < scanText text i"
proof -
  have "scanText text i = scanText text (i + 1)"
    using assms by (subst scanText.simps) (simp add: isSpecial_def)
  moreover have "i + 1 \<le> scanText text (i + 1)" by (rule scanText_ge)
  ultimately show ?thesis by simp
qed

lemma matchOperator_Some:
  "matchOperator text i ops = Some (tok, i') \<Longrightarrow>
     \<exists>op \<in> set ops. toUpperCase (substr text i (length op)) = op
        \<and> (i = 0 \<or> isWhitespace (text ! (i - 1)))
        \<and> (i + length op \<ge> length text \<or> isWhitespace (text ! (i + length op)))
        \<and> tok = \<lparr>tok_type = LogicalOperator, tok_value = substring text i (i + length op),
                  tok_start = i, tok_end = i + length op\<rparr>
        \<and> i' = i + length op"
  by (induction ops) (auto simp: Let_def split: if_splits)

lemma toUpperCase_substr_len:
  assumes "toUpperCase (substr text i (length op)) = op" and "op \<noteq> []"
  shows "i + length op \<le> length text"
proof -
  have "length (toUpperCase (substr text i (length op))) = min (length op) (length text - i)"
    by (simp add: toUpperCase_def substr_def)
  with assms(1) have "min (length op) (length text - i) = length op" by simp
  moreover have "0 < length op" using assms(2) by simp
  ultimately show ?thesis by arith
qed

lemma matchOperator_logical:
  assumes "matchOperator text i logicalOperators = Some (tok, i')"
  shows "i < i' \<and> i' \<le> length text \<and> tok_start tok = i \<and> tok_end tok = i'
         \<and> tok_type tok = LogicalOperator \<and> tok_value tok = substring text i i'"
proof -
  from matchOperator_Some [OF assms] obtain op where
    op: "op \<in> set logicalOperators" "toUpperCase (substr text i (length op)) = op"
      "tok = \<lparr>tok_type = LogicalOperator, tok_value = substring text i (i + length op),
                  tok_start = i, tok_end = i + length op\<rparr>" "i' = i + length op"
    by blast
  have ne: "op \<noteq> []" using op(1) by (auto simp: logicalOperators_def js_def)
  then have "0 < length op" by simp
  moreover have "i + length op \<le> length text"
    using toUpperCase_substr_len [OF op(2) ne] .
  ultimately show ?thesis using op(3,4) by simp
qed


lemma isWhitespace_special [simp]:
  "\<not> isWhitespace c_lparen" "\<not> isWhitespace c_rparen" "\<not> isWhitespace c_equals"
  "\<not> isWhitespace c_dquote" "\<not> isWhitespace c_squote" "\<not> isWhitespace c_rdquote"
  by (simp_all add: isWhitespace_def)

lemma substring_single: "i < length s \<Longrightarrow> substring s i (Suc i) = [s ! i]"
  by (simp add: substring_take_drop take_Suc_conv_app_nth Cons_nth_drop_Suc [symmetric])

lemma substring_to_end: "i \<le> length s \<Longrightarrow> substring s i (length s) = drop i s"
  by (simp add: substring_take_drop)

text \<open>
  What one iteration entered at \<open>i\<close> may do: move to \<open>i + 1\<close> over a whitespace unit with
  no token, or push exactly one token that starts at \<open>i\<close> on a non-whitespace unit, ends at
  the new cursor and holds the substring between them.
\<close>

definition stepResult :: "jsstring \<Rightarrow> nat \<Rightarrow> nat \<Rightarrow> Token list \<Rightarrow> bool" where
  "stepResult text i i' toks =
     (i < i' \<and> i' \<le> length text \<and>
      ((toks = [] \<and> isWhitespace (text ! i) \<and> i' = i + 1) \<or>
       (\<exists>t. toks = [t] \<and> \<not> isWhitespace (text ! i) \<and> tok_start t = i \<and> tok_end t = i'
            \<and> tok_value t = substring text i i' \<and> tok_type t \<noteq> Value)))"

lemma bareText_result:
  assumes "i < length text" "\<not> isWhitespace (text ! i)" "\<not> isSpecial (text ! i)"
  shows "stepResult text i (fst (bareText text i)) (snd (bareText text i))"
  using scanText_advances [OF assms] scanText_le [of i "text"] assms(1,2)
  by (simp add: bareText_def Let_def stepResult_def)

lemma keyOrText_result:
  assumes "i < length text" "\<not> isWhitespace (text ! i)" "\<not> isSpecial (text ! i)"
  shows "stepResult text i (fst (keyOrText text i)) (snd (keyOrText text i))"
proof -
  have le: "trimKey text i (findEquals text i) \<le> findEquals text i" by (rule trimKey_le)
  have "findEquals text i \<le> length text" using assms(1) by (simp add: findEquals_le)
  with le have "trimKey text i (findEquals text i) \<le> length text" by simp
  then show ?thesis
    using bareText_result [OF assms] assms(2)
    by (simp add: keyOrText_def Let_def stepResult_def)
qed

lemma scanStep_result:
  assumes "i < length text"
  shows "stepResult text i (fst (scanStep text i)) (snd (scanStep text i))"
proof (cases "isWhitespace (text ! i)")
  case True
  then show ?thesis using assms by (simp add: scanStep_def stepResult_def)
next
  case ws: False
  show ?thesis
  proof (cases "text ! i = c_lparen \<or> text ! i = c_rparen \<or> text ! i = c_equals")
    case True
    then show ?thesis using assms ws
      by (auto simp: scanStep_def stepResult_def substring_single js_def)
  next
    case np: False
    show ?thesis
    proof (cases "text ! i = c_dquote \<or> text ! i = c_squote \<or> text ! i = c_rdquote")
      case True
      have ge: "i + 1 \<le> scanQuote text (text ! i) (i + 1)" by (rule scanQuote_ge)
      have le: "scanQuote text (text ! i) (i + 1) \<le> length text"
        using assms by (simp add: scanQuote_le)
      from True np ws assms ge le show ?thesis
        by (auto simp: scanStep_def stepResult_def Let_def substringFrom_drop substring_to_end)
    next
      case nq: False
      then have nsp: "\<not> isSpecial (text ! i)" using np by (simp add: isSpecial_def)
      show ?thesis
      proof (cases "matchOperator text i logicalOperators")
        case None
        then show ?thesis
          using keyOrText_result [OF assms ws nsp] ws np nq
          by (simp add: scanStep_def)
      next
        case (Some a)
        obtain tok i' where a: "a = (tok, i')" by (cases a)
        from matchOperator_logical [of "text" i tok i'] Some a
        show ?thesis using ws np nq
          by (simp add: scanStep_def stepResult_def)
      qed
    qed
  qed
qed

lemma scanStep_advance:
  "i < length text \<Longrightarrow> i < fst (scanStep text i) \<and> fst (scanStep text i) \<le> length text"
  using scanStep_result [of i "text"] by (simp add: stepResult_def)

text \<open>
  The loop \<open>while (i < n)\<close> with the cursor and the \<open>tokens\<close> array as its state. It
  terminates because each iteration moves the cursor forward and never past \<open>n\<close>.
\<close>

function tokenizeLoop :: "jsstring \<Rightarrow> nat \<Rightarrow> Token list \<Rightarrow> Token list" where
  "tokenizeLoop text i tokens =
     (if i < length text then
        (case scanStep text i of (i', pushed) \<Rightarrow> tokenizeLoop text i' (tokens @ pushed))
      else tokens)"
  by pat_completeness auto
termination
  apply (relation "measure (\<lambda>(text, i, tokens). length text - i)")
   apply simp
  subgoal for t i tokens
    using scanStep_advance [of i t] by (cases "scanStep t i") auto
  done

declare tokenizeLoop.simps [simp del]

definition tokenize :: "jsstring \<Rightarrow> Token list" where
  "tokenize text = tokenizeLoop text 0 []"

section \<open>The renderer of parseAndHighlight\<close>

text \<open>The \<open>token.type\<close> string spliced into the class name.\<close>

definition typeName :: "TokenType \<Rightarrow> jsstring" where
  "typeName ty =
     (case ty of
        LogicalOperator \<Rightarrow> js ''logical-operator''
      | Key \<Rightarrow> js ''key''
      | Value \<Rightarrow> js ''value''
      | Quote \<Rightarrow> js ''quote''
      | Parenthesis \<Rightarrow> js ''parenthesis''
      | Equals \<Rightarrow> js ''equals''
      | Text \<Rightarrow> js ''text'')"

definition spanOpen :: "TokenType \<Rightarrow> jsstring" where
  \<open>spanOpen ty = js ''<span class="token-'' @ typeName ty @ js ''">''\<close>

definition spanClose :: jsstring where
  "spanClose = js ''</span>''"

text \<open>\<open>tokens.forEach\<close> with \<open>result\<close> and \<open>lastPos\<close> as its state.\<close>

fun renderLoop :: "jsstring \<Rightarrow> Token list \<Rightarrow> jsstring \<times> nat \<Rightarrow> jsstring \<times> nat" where
  "renderLoop text [] (result, lastPos) = (result, lastPos)"
| "renderLoop text (token # rest) (result, lastPos) =
     (let result1 =
            (if tok_start token > lastPos
             then result @ escapeHtml (substring text lastPos (tok_start token))
             else result);
          result2 = result1 @ spanOpen (tok_type token) @ escapeHtml (tok_value token) @ spanClose
      in renderLoop text rest (result2, tok_end token))"

definition render :: "jsstring \<Rightarrow> Token list \<Rightarrow> jsstring" where
  "render text tokens =
     (case renderLoop text tokens ([], 0) of
        (result, lastPos) \<Rightarrow>
          if lastPos < length text then result @ escapeHtml (substringFrom text lastPos)
          else result)"

definition parseAndHighlight :: "jsstring \<Rightarrow> jsstring" where
  "parseAndHighlight text = render text (tokenize text)"

section \<open>Reading the markup back\<close>

text \<open>
  The spec's \<open>strip_tags\<close> and the inverse of the escaping are not in the source. They are
  defined here from the spec's words: \<open>strip_tags\<close> drops every run from a \<open><\<close> up to
  the next \<open>>\<close>, and \<open>unescapeHtml\<close> reads the five entities back in one pass from the
  left.
\<close>

fun stripTags :: "bool \<Rightarrow> jsstring \<Rightarrow> jsstring" where
  "stripTags inTag [] = []"
| "stripTags inTag (c # cs) =
     (if inTag then (if c = c_gt then stripTags False cs else stripTags True cs)
      else (if c = c_lt then stripTags True cs else c # stripTags False cs))"

definition strip_tags :: "jsstring \<Rightarrow> jsstring" where
  "strip_tags s = stripTags False s"

fun unescapeHtml :: "jsstring \<Rightarrow> jsstring" where
  "unescapeHtml [] = []"
| "unescapeHtml (c # cs) =
     (if c = c_amp \<and> take 4 cs = js ''amp;'' then c_amp # unescapeHtml (drop 4 cs)
      else if c = c_amp \<and> take 3 cs = js ''lt;'' then c_lt # unescapeHtml (drop 3 cs)
      else if c = c_amp \<and> take 3 cs = js ''gt;'' then c_gt # unescapeHtml (drop 3 cs)
      else if c = c_amp \<and> take 5 cs = js ''quot;'' then c_dquote # unescapeHtml (drop 5 cs)
      else if c = c_amp \<and> take 5 cs = js ''#039;'' then c_squote # unescapeHtml (drop 5 cs)
      else c # unescapeHtml cs)"

text \<open>
  The pieces of raw input the renderer inserts, in order: the filler before each token, the
  token's content with its type, and the trailing filler.
\<close>

datatype Piece = Filler jsstring | Wrapped TokenType jsstring

fun pieces :: "jsstring \<Rightarrow> Token list \<Rightarrow> nat \<Rightarrow> Piece list" where
  "pieces text [] lastPos =
     (if lastPos < length text then [Filler (substringFrom text lastPos)] else [])"
| "pieces text (token # rest) lastPos =
     (if tok_start token > lastPos then [Filler (substring text lastPos (tok_start token))]
      else [])
     @ Wrapped (tok_type token) (tok_value token) # pieces text rest (tok_end token)"

fun emitPiece :: "Piece \<Rightarrow> jsstring" where
  "emitPiece (Filler s) = escapeHtml s"
| "emitPiece (Wrapped ty s) = spanOpen ty @ escapeHtml s @ spanClose"

fun rawPiece :: "Piece \<Rightarrow> jsstring" where
  "rawPiece (Filler s) = s"
| "rawPiece (Wrapped ty s) = s"

text \<open>The entity, or the unit itself, that \<open>escapeHtml\<close> writes for one unit.\<close>

definition escapeChar :: "cu \<Rightarrow> jsstring" where
  "escapeChar c =
     (if c = c_amp then js ''&amp;''
      else if c = c_lt then js ''&lt;''
      else if c = c_gt then js ''&gt;''
      else if c = c_dquote then js ''&quot;''
      else if c = c_squote then js ''&#039;''
      else [c])"

section \<open>Invariants of the token sequence\<close>

lemma tokenizeLoop_append:
  "tokenizeLoop text i acc = acc @ tokenizeLoop text i []"
proof (induction "length text - i" arbitrary: i acc rule: less_induct)
  case less
  show ?case
  proof (cases "i < length text")
    case True
    obtain i' pushed where st: "scanStep text i = (i', pushed)" by (cases "scanStep text i")
    with scanStep_advance [OF True] have "length text - i' < length text - i" by simp arith
    then have ih: "\<And>acc. tokenizeLoop text i' acc = acc @ tokenizeLoop text i' []"
      by (rule less)
    have "tokenizeLoop text i acc = tokenizeLoop text i' (acc @ pushed)"
      using True st by (subst tokenizeLoop.simps) simp
    also have "\<dots> = acc @ pushed @ tokenizeLoop text i' []"
      by (subst ih) simp
    also have "pushed @ tokenizeLoop text i' [] = tokenizeLoop text i' ([] @ pushed)"
      by (subst ih) simp
    also have "\<dots> = tokenizeLoop text i []"
      using True st by (subst (2) tokenizeLoop.simps) simp
    finally show ?thesis .
  next
    case False
    then show ?thesis by (simp add: tokenizeLoop.simps)
  qed
qed

lemma tokenizeLoop_unfold:
  "i < length text \<Longrightarrow>
     tokenizeLoop text i [] = snd (scanStep text i) @ tokenizeLoop text (fst (scanStep text i)) []"
  by (subst tokenizeLoop.simps, subst tokenizeLoop_append) (simp add: split_beta)

lemma tokenizeLoop_done: "\<not> i < length text \<Longrightarrow> tokenizeLoop text i acc = acc"
  by (simp add: tokenizeLoop.simps)

text \<open>
  \<open>covers text lo ts\<close>: from position \<open>lo\<close> on, the tokens \<open>ts\<close> lie in order inside
  the input, each holds the substring of its span and starts on a non-whitespace unit, and
  every position outside the spans is whitespace.
\<close>

fun covers :: "jsstring \<Rightarrow> nat \<Rightarrow> Token list \<Rightarrow> bool" where
  "covers text lo [] = (\<forall>p. lo \<le> p \<and> p < length text \<longrightarrow> isWhitespace (text ! p))"
| "covers text lo (t # ts) =
     (lo \<le> tok_start t \<and> tok_start t < tok_end t \<and> tok_end t \<le> length text
      \<and> tok_value t = substring text (tok_start t) (tok_end t)
      \<and> tok_type t \<noteq> Value \<and> \<not> isWhitespace (text ! tok_start t)
      \<and> (\<forall>p. lo \<le> p \<and> p < tok_start t \<longrightarrow> isWhitespace (text ! p))
      \<and> covers text (tok_end t) ts)"

lemma covers_skip:
  "isWhitespace (text ! i) \<Longrightarrow> covers text (Suc i) ts \<Longrightarrow> covers text i ts"
proof -
  assume w: "isWhitespace (text ! i)" and c: "covers text (Suc i) ts"
  have *: "\<And>p. i \<le> p \<Longrightarrow> p = i \<or> Suc i \<le> p" by arith
  show ?thesis
  proof (cases ts)
    case Nil
    then show ?thesis using w c * by auto
  next
    case (Cons a list)
    then show ?thesis using w c * by auto
  qed
qed

lemma covers_tokenizeLoop:
  "i \<le> length text \<Longrightarrow> covers text i (tokenizeLoop text i [])"
proof (induction "length text - i" arbitrary: i rule: less_induct)
  case less
  show ?case
  proof (cases "i < length text")
    case True
    let ?i' = "fst (scanStep text i)" and ?p = "snd (scanStep text i)"
    have sr: "stepResult text i ?i' ?p" by (rule scanStep_result [OF True])
    then have adv: "i < ?i'" "?i' \<le> length text" by (simp_all add: stepResult_def)
    then have "length text - ?i' < length text - i" using True by arith
    then have ih: "covers text ?i' (tokenizeLoop text ?i' [])"
      using adv(2) by (rule less)
    from sr consider
      (ws) "?p = []" "isWhitespace (text ! i)" "?i' = i + 1"
      | (tok) t where "?p = [t]" "tok_start t = i" "tok_end t = ?i'"
         "tok_value t = substring text i ?i'" "tok_type t \<noteq> Value"
         "\<not> isWhitespace (text ! i)"
      by (auto simp: stepResult_def)
    then show ?thesis
    proof cases
      case ws
      then show ?thesis
        using ih by (simp add: tokenizeLoop_unfold [OF True] covers_skip)
    next
      case tok
      then show ?thesis
        using ih adv by (auto simp: tokenizeLoop_unfold [OF True])
    qed
  next
    case False
    then show ?thesis by (auto simp: tokenizeLoop_done)
  qed
qed

lemma covers_tokenize: "covers text 0 (tokenize text)"
  by (simp add: tokenize_def covers_tokenizeLoop)

lemma covers_bounds:
  "covers text lo ts \<Longrightarrow> t \<in> set ts \<Longrightarrow>
     lo \<le> tok_start t \<and> tok_start t < tok_end t \<and> tok_end t \<le> length text
     \<and> tok_value t = substring text (tok_start t) (tok_end t) \<and> tok_type t \<noteq> Value
     \<and> \<not> isWhitespace (text ! tok_start t)"
proof (induction ts arbitrary: lo)
  case Nil
  then show ?case by simp
next
  case (Cons a ts)
  show ?case
  proof (cases "t = a")
    case True
    then show ?thesis using Cons.prems(1) by simp
  next
    case False
    then have "t \<in> set ts" using Cons.prems(2) by simp
    moreover have "covers text (tok_end a) ts" using Cons.prems(1) by simp
    ultimately have "tok_end a \<le> tok_start t \<and> tok_start t < tok_end t \<and> tok_end t \<le> length text
     \<and> tok_value t = substring text (tok_start t) (tok_end t) \<and> tok_type t \<noteq> Value
     \<and> \<not> isWhitespace (text ! tok_start t)"
      by (rule Cons.IH [rotated])
    moreover have "lo \<le> tok_end a" using Cons.prems(1) by simp
    ultimately show ?thesis by simp
  qed
qed

lemma covers_sorted:
  "covers text lo ts \<Longrightarrow>
     sorted_wrt (\<lambda>a b. tok_start a < tok_start b \<and> tok_end a \<le> tok_start b) ts"
proof (induction ts arbitrary: lo)
  case Nil
  then show ?case by simp
next
  case (Cons a ts)
  have c: "covers text (tok_end a) ts" and sa: "tok_start a < tok_end a"
    using Cons.prems by simp_all
  have "\<forall>b \<in> set ts. tok_start a < tok_start b \<and> tok_end a \<le> tok_start b"
    using covers_bounds [OF c] sa by fastforce
  then show ?case using Cons.IH [OF c] by simp
qed

lemma covers_gaps:
  "covers text lo ts \<Longrightarrow> lo \<le> p \<Longrightarrow> p < length text \<Longrightarrow>
     \<forall>t \<in> set ts. \<not> (tok_start t \<le> p \<and> p < tok_end t) \<Longrightarrow> isWhitespace (text ! p)"
proof (induction ts arbitrary: lo)
  case Nil
  then show ?case by simp
next
  case (Cons a ts)
  show ?case
  proof (cases "p < tok_start a")
    case True
    then show ?thesis using Cons.prems by simp
  next
    case False
    then have "tok_end a \<le> p" using Cons.prems(4) by auto
    moreover have "covers text (tok_end a) ts" using Cons.prems(1) by simp
    ultimately show ?thesis using Cons.IH Cons.prems(3,4) by simp
  qed
qed


text \<open>The same loop with a bound on the number of iterations; \<open>None\<close> when it is used up.\<close>

fun tokenizeFuel :: "nat \<Rightarrow> jsstring \<Rightarrow> nat \<Rightarrow> Token list \<Rightarrow> Token list option" where
  "tokenizeFuel 0 text i tokens = (if i < length text then None else Some tokens)"
| "tokenizeFuel (Suc k) text i tokens =
     (if i < length text then
        (case scanStep text i of (i', pushed) \<Rightarrow> tokenizeFuel k text i' (tokens @ pushed))
      else Some tokens)"

lemma tokenizeFuel_enough:
  "length text - i \<le> k \<Longrightarrow> tokenizeFuel k text i acc = Some (tokenizeLoop text i acc)"
proof (induction k arbitrary: i acc)
  case 0
  then show ?case by (simp add: tokenizeLoop.simps)
next
  case (Suc k)
  show ?case
  proof (cases "i < length text")
    case True
    obtain i' pushed where st: "scanStep text i = (i', pushed)" by (cases "scanStep text i")
    with scanStep_advance [OF True] have "i < i'" by simp
    with Suc.prems have "length text - i' \<le> k" by arith
    then have "tokenizeFuel k text i' (acc @ pushed) = Some (tokenizeLoop text i' (acc @ pushed))"
      by (rule Suc.IH)
    then show ?thesis using True st by (subst tokenizeLoop.simps) simp
  next
    case False
    then show ?thesis by (simp add: tokenizeLoop.simps)
  qed
qed

lemma tokenize_status_active:
  "tokenize (js ''status = active'') =
     [\<lparr>tok_type = Key, tok_value = js ''status'', tok_start = 0, tok_end = 6\<rparr>,
      \<lparr>tok_type = Equals, tok_value = js ''='', tok_start = 7, tok_end = 8\<rparr>,
      \<lparr>tok_type = Text, tok_value = js ''active'', tok_start = 9, tok_end = 15\<rparr>]"
  by code_simp

section \<open>The renderer and the round trip\<close>

lemma parseAndHighlight_script:
  \<open>parseAndHighlight (js ''<script>'') = js ''<span class="token-text">&lt;script&gt;</span>''\<close>
  by code_simp

lemma replaceAll_append: "replaceAll c r (xs @ ys) = replaceAll c r xs @ replaceAll c r ys"
  by (simp add: replaceAll_def)

lemma replaceAll_Nil: "replaceAll c r [] = []"
  by (simp add: replaceAll_def)

lemma escapeHtml_append: "escapeHtml (xs @ ys) = escapeHtml xs @ escapeHtml ys"
  by (simp add: escapeHtml_def replaceAll_append)

lemma escapeHtml_single: "escapeHtml [c] = escapeChar c"
  by (simp add: escapeHtml_def escapeChar_def replaceAll_def js_def)

lemma escapeHtml_Nil: "escapeHtml [] = []"
  by (simp add: escapeHtml_def replaceAll_def)

lemma escapeHtml_Cons: "escapeHtml (c # cs) = escapeChar c @ escapeHtml cs"
  using escapeHtml_append [of "[c]" cs] by (simp add: escapeHtml_single)

lemma escapeHtml_concat: "escapeHtml s = concat (map escapeChar s)"
  by (induction s) (simp_all add: escapeHtml_Nil escapeHtml_Cons)


lemma escapeChar_no_markup:
  "c_lt \<notin> set (escapeChar c)" "c_gt \<notin> set (escapeChar c)"
  "c_dquote \<notin> set (escapeChar c)" "c_squote \<notin> set (escapeChar c)"
  by (auto simp: escapeChar_def js_def)

lemma escapeHtml_no_markup:
  "c_lt \<notin> set (escapeHtml s)" "c_gt \<notin> set (escapeHtml s)"
  "c_dquote \<notin> set (escapeHtml s)" "c_squote \<notin> set (escapeHtml s)"
  using escapeChar_no_markup by (auto simp: escapeHtml_concat)

lemma stripTags_plain: "c_lt \<notin> set s \<Longrightarrow> stripTags False (s @ r) = s @ stripTags False r"
  by (induction s) auto

lemma stripTags_spanOpen: "stripTags False (spanOpen ty @ r) = stripTags False r"
  by (cases ty) (simp_all add: spanOpen_def typeName_def js_def)

lemma stripTags_spanClose: "stripTags False (spanClose @ r) = stripTags False r"
  by (simp add: spanClose_def js_def)

lemma stripTags_emitPiece:
  "stripTags False (emitPiece p @ r) = escapeHtml (rawPiece p) @ stripTags False r"
  by (cases p)
    (simp_all add: stripTags_plain escapeHtml_no_markup stripTags_spanOpen stripTags_spanClose)

lemma stripTags_pieces:
  "stripTags False (concat (map emitPiece ps)) = concat (map (\<lambda>p. escapeHtml (rawPiece p)) ps)"
  by (induction ps) (simp_all add: stripTags_emitPiece)

lemma unescapeHtml_escapeChar: "unescapeHtml (escapeChar c @ r) = c # unescapeHtml r"
  by (simp add: escapeChar_def js_def)

lemma unescapeHtml_escapeHtml: "unescapeHtml (escapeHtml s @ r) = s @ unescapeHtml r"
  by (induction s) (simp_all add: escapeHtml_Nil escapeHtml_Cons unescapeHtml_escapeChar)

lemma unescapeHtml_pieces:
  "unescapeHtml (concat (map (\<lambda>p. escapeHtml (rawPiece p)) ps)) = concat (map rawPiece ps)"
  by (induction ps) (simp_all add: unescapeHtml_escapeHtml)

lemma renderLoop_pieces:
  "(case renderLoop text tokens (result, lastPos) of
      (r, lp) \<Rightarrow> if lp < length text then r @ escapeHtml (substringFrom text lp) else r)
   = result @ concat (map emitPiece (pieces text tokens lastPos))"
  by (induction tokens arbitrary: result lastPos) (simp_all add: Let_def)

lemma render_pieces: "render text tokens = concat (map emitPiece (pieces text tokens 0))"
  using renderLoop_pieces [of "text" tokens "[]" 0] by (simp add: render_def)

lemma take_drop_join: "a \<le> b \<Longrightarrow> take (b - a) (drop a xs) @ drop b xs = drop a xs"
proof -
  assume "a \<le> b"
  then have "drop b xs = drop (b - a) (drop a xs)" by simp
  then show ?thesis by (simp only: append_take_drop_id)
qed

lemma covers_pieces:
  "covers text lo ts \<Longrightarrow> concat (map rawPiece (pieces text ts lo)) = drop lo text"
proof (induction ts arbitrary: lo)
  case Nil
  then show ?case by (simp add: substringFrom_drop)
next
  case (Cons t ts)
  have b: "lo \<le> tok_start t" "tok_start t < tok_end t" "tok_end t \<le> length text"
    "tok_value t = substring text (tok_start t) (tok_end t)" and c: "covers text (tok_end t) ts"
    using Cons.prems by simp_all
  have rest: "concat (map rawPiece (pieces text ts (tok_end t))) = drop (tok_end t) text"
    by (rule Cons.IH [OF c])
  have v: "tok_value t @ drop (tok_end t) text = drop (tok_start t) text"
    using b by (simp add: substring_take_drop take_drop_join)
  have f: "substring text lo (tok_start t) @ drop (tok_start t) text = drop lo text"
    using b by (simp add: substring_take_drop take_drop_join)
  show ?case
  proof (cases "lo < tok_start t")
    case True
    then show ?thesis using rest v f by simp
  next
    case False
    then have "lo = tok_start t" using b(1) by simp
    then show ?thesis using rest v by simp
  qed
qed

lemma pieces_tokenize: "concat (map rawPiece (pieces text (tokenize text) 0)) = text"
  using covers_pieces [OF covers_tokenize, of "text"] by simp

section \<open>The quote, operator and key rules\<close>

lemma scanQuote_stop:
  "i \<le> length text \<Longrightarrow>
     scanQuote text q i = length text
     \<or> (scanQuote text q i < length text \<and> text ! scanQuote text q i = q
         \<and> \<not> (scanQuote text q i > 0 \<and> text ! (scanQuote text q i - 1) = c_backslash))"
proof (induction "text" q i rule: scanQuote.induct)
  case (1 t quoteType i)
  show ?case
  proof (cases "i < length t \<and> (t ! i \<noteq> quoteType \<or> (i > 0 \<and> t ! (i - 1) = c_backslash))")
    case True
    then have "scanQuote t quoteType i = scanQuote t quoteType (i + 1)"
      by (subst scanQuote.simps) simp
    moreover have "i + 1 \<le> length t" using True by simp
    ultimately show ?thesis using "1.IH" [OF True] by simp
  next
    case False
    have "scanQuote t quoteType i = i" by (subst scanQuote.simps) (simp only: False if_False)
    then show ?thesis using False "1.prems" by auto
  qed
qed

lemma scanQuote_skipped:
  "i \<le> k \<Longrightarrow> k < scanQuote text q i \<Longrightarrow>
     k < length text \<and> (text ! k \<noteq> q \<or> (k > 0 \<and> text ! (k - 1) = c_backslash))"
proof (induction "text" q i rule: scanQuote.induct)
  case (1 t quoteType i)
  show ?case
  proof (cases "i < length t \<and> (t ! i \<noteq> quoteType \<or> (i > 0 \<and> t ! (i - 1) = c_backslash))")
    case True
    then have eq: "scanQuote t quoteType i = scanQuote t quoteType (i + 1)"
      by (subst scanQuote.simps) simp
    show ?thesis
    proof (cases "k = i")
      case True
      then show ?thesis using \<open>i < length t \<and> _\<close> by simp
    next
      case False
      then have "i + 1 \<le> k" using "1.prems"(1) by simp
      then show ?thesis using "1.IH" [OF True] "1.prems"(2) eq by simp
    qed
  next
    case False
    have "scanQuote t quoteType i = i" by (subst scanQuote.simps) (simp only: False if_False)
    then show ?thesis using "1.prems" by simp
  qed
qed

text \<open>
  \<open>closesAt text q j\<close>: position \<open>j\<close> holds the quote character \<open>q\<close> and the unit before
  it is not a backslash.
\<close>

definition closesAt :: "jsstring \<Rightarrow> cu \<Rightarrow> nat \<Rightarrow> bool" where
  "closesAt text q j = (text ! j = q \<and> text ! (j - 1) \<noteq> c_backslash)"

lemma scanQuote_first:
  assumes "i < j" "j < length text" "closesAt text q j"
    and "\<forall>k. i < k \<and> k < j \<longrightarrow> \<not> closesAt text q k"
  shows "scanQuote text q (i + 1) = j"
proof -
  let ?r = "scanQuote text q (i + 1)"
  have ge: "i + 1 \<le> ?r" by (rule scanQuote_ge)
  have "\<not> j < ?r"
  proof
    assume "j < ?r"
    with scanQuote_skipped [of "i + 1" j "text" q] assms(1,3) show False
      by (auto simp: closesAt_def)
  qed
  moreover have "\<not> ?r < j"
  proof
    assume lt: "?r < j"
    then have "?r < length text" using assms(2) by simp
    with scanQuote_stop [of "i + 1" "text" q] assms(1,2) ge
    have "closesAt text q ?r" by (auto simp: closesAt_def)
    with assms(4) lt ge show False by auto
  qed
  ultimately show ?thesis by simp
qed

lemma scanQuote_none:
  assumes "i < length text" "\<forall>j. i < j \<and> j < length text \<longrightarrow> \<not> closesAt text q j"
  shows "scanQuote text q (i + 1) = length text"
proof -
  let ?r = "scanQuote text q (i + 1)"
  have ge: "i + 1 \<le> ?r" by (rule scanQuote_ge)
  from scanQuote_stop [of "i + 1" "text" q] assms(1)
  have "?r = length text \<or> (?r < length text \<and> closesAt text q ?r)"
    using ge by (auto simp: closesAt_def)
  with assms(2) ge show ?thesis by auto
qed

lemma quote_step_closed:
  assumes "i < length text" "text ! i = q" "q = c_dquote \<or> q = c_squote \<or> q = c_rdquote"
    "i < j" "j < length text" "closesAt text q j"
    "\<forall>k. i < k \<and> k < j \<longrightarrow> \<not> closesAt text q k"
  shows "scanStep text i =
           (j + 1, [\<lparr>tok_type = Quote, tok_value = take (j + 1 - i) (drop i text),
                     tok_start = i, tok_end = j + 1\<rparr>])"
proof -
  have r: "scanQuote text q (i + 1) = j" by (rule scanQuote_first [OF assms(4-7)])
  have "\<not> isWhitespace q" "q \<noteq> c_lparen" "q \<noteq> c_rparen" "q \<noteq> c_equals"
    using assms(3) by auto
  moreover have "text ! j = q" using assms(6) by (simp add: closesAt_def)
  ultimately show ?thesis
    using assms(1-5) r by (simp add: scanStep_def Let_def substring_take_drop)
qed

lemma quote_step_open:
  assumes "i < length text" "text ! i = q" "q = c_dquote \<or> q = c_squote \<or> q = c_rdquote"
    "\<forall>j. i < j \<and> j < length text \<longrightarrow> \<not> closesAt text q j"
  shows "scanStep text i =
           (length text, [\<lparr>tok_type = Quote, tok_value = drop i text,
                     tok_start = i, tok_end = length text\<rparr>])"
proof -
  have r: "scanQuote text q (i + 1) = length text" by (rule scanQuote_none [OF assms(1,4)])
  have "\<not> isWhitespace q" "q \<noteq> c_lparen" "q \<noteq> c_rparen" "q \<noteq> c_equals"
    using assms(3) by auto
  then show ?thesis
    using assms(1-3) r by (simp add: scanStep_def Let_def substringFrom_drop)
qed


lemma tokens_from_steps:
  "t \<in> set (tokenizeLoop text i []) \<Longrightarrow>
     \<exists>j. i \<le> j \<and> j < length text \<and> t \<in> set (snd (scanStep text j))"
proof (induction "length text - i" arbitrary: i rule: less_induct)
  case less
  show ?case
  proof (cases "i < length text")
    case True
    let ?i' = "fst (scanStep text i)"
    have adv: "i < ?i'" "?i' \<le> length text" using scanStep_advance [OF True] by simp_all
    from less.prems have "t \<in> set (snd (scanStep text i)) \<or> t \<in> set (tokenizeLoop text ?i' [])"
      by (simp add: tokenizeLoop_unfold [OF True])
    then show ?thesis
    proof
      assume "t \<in> set (snd (scanStep text i))"
      then show ?thesis using True by blast
    next
      assume r: "t \<in> set (tokenizeLoop text ?i' [])"
      have "length text - ?i' < length text - i" using adv True by arith
      from less.hyps [OF this r] obtain j where
        "?i' \<le> j" "j < length text" "t \<in> set (snd (scanStep text j))" by blast
      then show ?thesis using adv(1) by (intro exI [of _ j]) simp
    qed
  next
    case False
    then show ?thesis using less.prems by (simp add: tokenizeLoop_done)
  qed
qed

lemma keyOrText_types:
  "t \<in> set (snd (keyOrText text i)) \<Longrightarrow> tok_type t = Key \<or> tok_type t = Text"
  by (auto simp: keyOrText_def bareText_def Let_def split: if_splits)

lemma substr_substring:
  "i + k \<le> length s \<Longrightarrow> substring s i (i + k) = substr s i k"
  by (simp add: substring_take_drop substr_def)

lemma operator_step:
  assumes "i < length text" "t \<in> set (snd (scanStep text i))" "tok_type t = LogicalOperator"
  shows "toUpperCase (tok_value t) \<in> set logicalOperators
         \<and> (tok_start t = 0 \<or> isWhitespace (text ! (tok_start t - 1)))
         \<and> (tok_end t = length text \<or> isWhitespace (text ! tok_end t))"
proof (cases "matchOperator text i logicalOperators")
  case None
  with assms(2,3) keyOrText_types [of t "text" i] show ?thesis
    by (auto simp: scanStep_def Let_def split: if_splits)
next
  case (Some a)
  obtain tok i' where a: "a = (tok, i')" by (cases a)
  from assms(2,3) Some a have tt: "t = tok"
    by (auto simp: scanStep_def Let_def split: if_splits)
  from matchOperator_Some [of "text" i logicalOperators tok i'] Some a obtain op where
    op: "op \<in> set logicalOperators" "toUpperCase (substr text i (length op)) = op"
      "i = 0 \<or> isWhitespace (text ! (i - 1))"
      "i + length op \<ge> length text \<or> isWhitespace (text ! (i + length op))"
      "tok = \<lparr>tok_type = LogicalOperator, tok_value = substring text i (i + length op),
                  tok_start = i, tok_end = i + length op\<rparr>"
    by auto
  have ne: "op \<noteq> []" using op(1) by (auto simp: logicalOperators_def js_def)
  have le: "i + length op \<le> length text" by (rule toUpperCase_substr_len [OF op(2) ne])
  have "toUpperCase (tok_value t) = op"
    using tt op(5) op(2) by (simp add: substr_substring [OF le])
  moreover have "tok_end t = length text \<or> isWhitespace (text ! tok_end t)"
    using tt op(4,5) le by auto
  ultimately show ?thesis using tt op(1,3,5) by simp
qed

lemma findEquals_first:
  "i \<le> p \<Longrightarrow> p < length text \<Longrightarrow> text ! p = c_equals
     \<Longrightarrow> \<forall>k. i \<le> k \<and> k < p \<longrightarrow> text ! k \<noteq> c_equals \<Longrightarrow> findEquals text i = p"
proof (induction "p - i" arbitrary: i)
  case 0
  then have "i = p" by simp
  then show ?case using "0.prems" by (subst findEquals.simps) simp
next
  case (Suc d)
  then have lt: "i < p" by simp
  then have "text ! i \<noteq> c_equals" "i < length text" using Suc.prems by auto
  then have "findEquals text i = findEquals text (i + 1)"
    by (subst findEquals.simps) simp
  moreover have "findEquals text (i + 1) = p"
    using Suc.hyps(2) lt Suc.prems by (intro Suc.hyps(1)) auto
  ultimately show ?case by simp
qed

lemma trimKey_spec:
  "s \<le> e \<Longrightarrow>
     s \<le> trimKey text s e \<and> trimKey text s e \<le> e
     \<and> (trimKey text s e = s \<or> \<not> isWhitespace (text ! (trimKey text s e - 1)))
     \<and> (\<forall>k. trimKey text s e \<le> k \<and> k < e \<longrightarrow> isWhitespace (text ! k))"
proof (induction "text" s e rule: trimKey.induct)
  case (1 t keyStart keyEnd)
  show ?case
  proof (cases "keyEnd > keyStart \<and> isWhitespace (t ! (keyEnd - 1))")
    case True
    let ?r = "trimKey t keyStart (keyEnd - 1)"
    have eq: "trimKey t keyStart keyEnd = ?r"
      using True by (subst trimKey.simps) simp
    have "keyStart \<le> keyEnd - 1" using True by arith
    from "1.IH" [OF True this]
    have ih: "keyStart \<le> ?r" "?r \<le> keyEnd - 1"
      "?r = keyStart \<or> \<not> isWhitespace (t ! (?r - 1))"
      "\<forall>k. ?r \<le> k \<and> k < keyEnd - 1 \<longrightarrow> isWhitespace (t ! k)"
      by simp_all
    have "\<forall>k. ?r \<le> k \<and> k < keyEnd \<longrightarrow> isWhitespace (t ! k)"
    proof (intro allI impI)
      fix k assume k: "?r \<le> k \<and> k < keyEnd"
      show "isWhitespace (t ! k)"
      proof (cases "k < keyEnd - 1")
        case True
        then show ?thesis using ih(4) k by simp
      next
        case False
        then have "k = keyEnd - 1" using k by arith
        then show ?thesis using \<open>keyEnd > keyStart \<and> isWhitespace (t ! (keyEnd - 1))\<close> by simp
      qed
    qed
    moreover have "?r \<le> keyEnd" using ih(2) by arith
    ultimately show ?thesis unfolding eq using ih(1,3) by simp
  next
    case False
    have eq: "trimKey t keyStart keyEnd = keyEnd"
      by (subst trimKey.simps) (simp only: False if_False)
    have "keyEnd = keyStart \<or> \<not> isWhitespace (t ! (keyEnd - 1))"
      using False "1.prems" by auto
    then show ?thesis unfolding eq using "1.prems" by auto
  qed
qed

lemma key_step:
  assumes "i < length text" "\<not> isWhitespace (text ! i)" "\<not> isSpecial (text ! i)"
    "matchOperator text i logicalOperators = None"
    "i < p" "p < length text" "text ! p = c_equals"
    "\<forall>k. i < k \<and> k < p \<longrightarrow> text ! k \<noteq> c_equals"
  shows "scanStep text i =
           (trimKey text i p,
            [\<lparr>tok_type = Key, tok_value = take (trimKey text i p - i) (drop i text),
              tok_start = i, tok_end = trimKey text i p\<rparr>])
         \<and> i < trimKey text i p \<and> trimKey text i p \<le> p
         \<and> \<not> isWhitespace (text ! (trimKey text i p - 1))
         \<and> (\<forall>k. trimKey text i p \<le> k \<and> k < p \<longrightarrow> isWhitespace (text ! k))"
proof -
  let ?e = "trimKey text i p"
  have ne: "text ! i \<noteq> c_equals" using assms(3) by (simp add: isSpecial_def)
  have "\<forall>k. i \<le> k \<and> k < p \<longrightarrow> text ! k \<noteq> c_equals"
  proof (intro allI impI)
    fix k assume "i \<le> k \<and> k < p"
    then have "k = i \<or> (i < k \<and> k < p)" by arith
    then show "text ! k \<noteq> c_equals" using ne assms(8) by auto
  qed
  then have fe: "findEquals text i = p"
    using assms(5,6,7) by (intro findEquals_first) simp_all
  have ip: "i \<le> p" using assms(5) by simp
  note ts = trimKey_spec [OF ip, of "text"]
  have gt: "i < ?e"
  proof (rule ccontr)
    assume "\<not> i < ?e"
    then have "?e = i" using ts by simp
    with ts assms(5) have "isWhitespace (text ! i)" by auto
    with assms(2) show False by simp
  qed
  then have nw: "\<not> isWhitespace (text ! (?e - 1))" using ts by auto
  have le: "?e \<le> length text" using ts assms(6) by simp
  have n1: "i < length text - 1" using assms(5,6) by arith
  have sp: "text ! i \<noteq> c_lparen" "text ! i \<noteq> c_rparen" "text ! i \<noteq> c_dquote"
    "text ! i \<noteq> c_squote" "text ! i \<noteq> c_rdquote"
    using assms(3) by (simp_all add: isSpecial_def)
  have k: "keyOrText text i =
           (?e, [\<lparr>tok_type = Key, tok_value = take (?e - i) (drop i text),
              tok_start = i, tok_end = ?e\<rparr>])"
    using n1 fe assms(6,7) gt le
    by (simp add: keyOrText_def Let_def substring_take_drop)
  have "scanStep text i = keyOrText text i"
    using assms(2,4) ne sp by (simp add: scanStep_def)
  with k gt ts nw show ?thesis by simp
qed

lemma key_step_untrimmed:
  assumes "\<not> isWhitespace x" "\<not> isSpecial x"
    "matchOperator (x # mid @ c_equals # rest) 0 logicalOperators = None"
    "c_equals \<notin> set mid" "\<not> isWhitespace (last (x # mid))"
  shows "scanStep (x # mid @ c_equals # rest) 0 =
           (Suc (length mid),
            [\<lparr>tok_type = Key, tok_value = x # mid, tok_start = 0, tok_end = Suc (length mid)\<rparr>])"
proof -
  let ?t = "x # mid @ c_equals # rest" and ?p = "Suc (length mid)"
  have p: "?t ! ?p = c_equals" by (simp add: nth_append)
  have mid: "\<forall>k. 0 < k \<and> k < ?p \<longrightarrow> ?t ! k \<noteq> c_equals"
  proof (intro allI impI)
    fix k assume k: "0 < k \<and> k < ?p"
    then obtain m where m: "k = Suc m" "m < length mid" by (cases k) auto
    then have "?t ! k = mid ! m" by (simp add: nth_append)
    moreover have "mid ! m \<in> set mid" using m(2) by simp
    ultimately show "?t ! k \<noteq> c_equals" using assms(4) by metis
  qed
  have lastc: "?t ! (?p - 1) = last (x # mid)"
  proof -
    have "?t = (x # mid) @ c_equals # rest" by simp
    then have "?t ! length mid = (x # mid) ! length mid"
      by (simp only: nth_append) simp
    moreover have "last (x # mid) = (x # mid) ! (length (x # mid) - 1)"
      by (rule last_conv_nth) simp
    ultimately show ?thesis by simp
  qed
  have tk: "trimKey ?t 0 ?p = ?p"
    using assms(5) lastc by (subst trimKey.simps) simp
  have "scanStep ?t 0 =
           (trimKey ?t 0 ?p,
            [\<lparr>tok_type = Key, tok_value = take (trimKey ?t 0 ?p - 0) (drop 0 ?t),
              tok_start = 0, tok_end = trimKey ?t 0 ?p\<rparr>])"
    using key_step [of 0 ?t ?p] assms(1,2,3) p mid by simp
  then show ?thesis unfolding tk by simp
qed

text \<open>The operator rule accepts every whole-word match at the cursor.\<close>

lemma toUpperCase_substr_take:
  "k \<le> l \<Longrightarrow> take k (toUpperCase (substr text i l)) = toUpperCase (substr text i k)"
  by (simp add: toUpperCase_def substr_def take_map min_def)

lemma toUpperCase_substr_first:
  assumes "toUpperCase (substr text i (length op)) = op" and "op \<noteq> []"
  shows "i < length text \<and> toUpperCase_cu (text ! i) = op ! 0"
proof -
  have le: "i + length op \<le> length text" by (rule toUpperCase_substr_len [OF assms])
  have pos: "0 < length op" using assms(2) by simp
  then have lt: "i < length text" using le by arith
  have "op ! 0 = toUpperCase (substr text i (length op)) ! 0" using assms(1) by simp
  also have "\<dots> = toUpperCase_cu (substr text i (length op) ! 0)"
    using pos le by (simp add: toUpperCase_def substr_def)
  also have "substr text i (length op) ! 0 = text ! i"
    using pos le by (simp add: substr_def)
  finally show ?thesis using lt by simp
qed

lemma operator_letter_plain:
  assumes "toUpperCase_cu c = 0x41 \<or> toUpperCase_cu c = 0x4F \<or> toUpperCase_cu c = 0x4E"
  shows "\<not> isWhitespace c \<and> \<not> isSpecial c"
proof -
  have "c = 0x41 \<or> c = 0x61 \<or> c = 0x4F \<or> c = 0x6F \<or> c = 0x4E \<or> c = 0x6E"
    using assms by (auto simp: toUpperCase_cu_def diff_eq_eq split: if_splits)
  then show ?thesis by (auto simp: isWhitespace_def isSpecial_def)
qed

lemma operator_lengths:
  "length (js ''AND'') = 3" "length (js ''OR'') = 2" "length (js ''NOT'') = 3"
  by (simp_all add: js_def)

lemma operator_prefixes:
  "take 2 (js ''AND'') \<noteq> js ''OR''" "take 2 (js ''NOT'') \<noteq> js ''OR''"
  "js ''NOT'' \<noteq> js ''AND''"
  by (simp_all add: js_def)

lemma matchOperator_accepts:
  assumes "op \<in> set logicalOperators"
    and m: "toUpperCase (substr text i (length op)) = op"
    and b: "i = 0 \<or> isWhitespace (text ! (i - 1))"
    and a: "i + length op \<ge> length text \<or> isWhitespace (text ! (i + length op))"
  shows "matchOperator text i logicalOperators =
           Some (\<lparr>tok_type = LogicalOperator, tok_value = substring text i (i + length op),
                  tok_start = i, tok_end = i + length op\<rparr>, i + length op)"
proof -
  have t23: "take 2 (toUpperCase (substr text i 3)) = toUpperCase (substr text i 2)"
    by (rule toUpperCase_substr_take) simp
  from assms(1) consider "op = js ''AND''" | "op = js ''OR''" | "op = js ''NOT''"
    by (auto simp: logicalOperators_def)
  then show ?thesis
  proof cases
    case 1
    then show ?thesis using m b a by (simp add: logicalOperators_def Let_def)
  next
    case 2
    have m2: "toUpperCase (substr text i 2) = js ''OR''"
      using m unfolding 2 operator_lengths .
    have "toUpperCase (substr text i (length (js ''AND''))) \<noteq> js ''AND''"
    proof
      assume "toUpperCase (substr text i (length (js ''AND''))) = js ''AND''"
      then have "toUpperCase (substr text i 3) = js ''AND''" unfolding operator_lengths .
      with t23 m2 have "take 2 (js ''AND'') = js ''OR''" by simp
      with operator_prefixes(1) show False by simp
    qed
    then show ?thesis using 2 m b a by (simp add: logicalOperators_def Let_def)
  next
    case 3
    have m3: "toUpperCase (substr text i 3) = js ''NOT''"
      using m unfolding 3 operator_lengths .
    have na: "toUpperCase (substr text i (length (js ''AND''))) \<noteq> js ''AND''"
      unfolding operator_lengths using m3 operator_prefixes(3) by simp
    have no: "toUpperCase (substr text i (length (js ''OR''))) \<noteq> js ''OR''"
    proof
      assume "toUpperCase (substr text i (length (js ''OR''))) = js ''OR''"
      then have "toUpperCase (substr text i 2) = js ''OR''" unfolding operator_lengths .
      with t23 m3 have "take 2 (js ''NOT'') = js ''OR''" by simp
      with operator_prefixes(2) show False by simp
    qed
    show ?thesis using 3 m b a na no by (simp add: logicalOperators_def Let_def)
  qed
qed

lemma operator_step_accepts:
  assumes "op \<in> set logicalOperators"
    and m: "toUpperCase (substr text i (length op)) = op"
    and b: "i = 0 \<or> isWhitespace (text ! (i - 1))"
    and a: "i + length op \<ge> length text \<or> isWhitespace (text ! (i + length op))"
  shows "scanStep text i =
           (i + length op,
            [\<lparr>tok_type = LogicalOperator, tok_value = take (length op) (drop i text),
              tok_start = i, tok_end = i + length op\<rparr>])"
proof -
  have ne: "op \<noteq> []" using assms(1) by (auto simp: logicalOperators_def js_def)
  have le: "i + length op \<le> length text" by (rule toUpperCase_substr_len [OF m ne])
  have "op ! 0 = 0x41 \<or> op ! 0 = 0x4F \<or> op ! 0 = 0x4E"
    using assms(1) by (auto simp: logicalOperators_def js_def)
  with toUpperCase_substr_first [OF m ne]
  have "\<not> isWhitespace (text ! i) \<and> \<not> isSpecial (text ! i)"
    by (intro operator_letter_plain) simp
  then have plain: "\<not> isWhitespace (text ! i)" "text ! i \<noteq> c_lparen" "text ! i \<noteq> c_rparen"
    "text ! i \<noteq> c_equals" "text ! i \<noteq> c_dquote" "text ! i \<noteq> c_squote"
    "text ! i \<noteq> c_rdquote"
    by (simp_all add: isSpecial_def)
  have v: "substring text i (i + length op) = take (length op) (drop i text)"
    using le by (simp add: substring_take_drop)
  show ?thesis
    using plain matchOperator_accepts [OF assms] v by (simp add: scanStep_def)
qed

section \<open>Worked inputs\<close>

lemma tokenize_escaped_quote:
  \<open>tokenize (js ''key="a '' @ c_backslash # js ''"b'' @ c_backslash # js ''" c"'') =
     [\<lparr>tok_type = Key, tok_value = js ''key'', tok_start = 0, tok_end = 3\<rparr>,
      \<lparr>tok_type = Equals, tok_value = js ''='', tok_start = 3, tok_end = 4\<rparr>,
      \<lparr>tok_type = Quote,
        tok_value = js ''"a '' @ c_backslash # js ''"b'' @ c_backslash # js ''" c"'',
        tok_start = 4, tok_end = 15\<rparr>]\<close>
  by code_simp

lemma tokenize_open_quote:
  \<open>tokenize (js ''key="open'') =
     [\<lparr>tok_type = Key, tok_value = js ''key'', tok_start = 0, tok_end = 3\<rparr>,
      \<lparr>tok_type = Equals, tok_value = js ''='', tok_start = 3, tok_end = 4\<rparr>,
      \<lparr>tok_type = Quote, tok_value = js ''"open'', tok_start = 4, tok_end = 9\<rparr>]\<close>
  by code_simp

lemma tokenize_AND:
  "tokenize (js ''AND'') =
     [\<lparr>tok_type = LogicalOperator, tok_value = js ''AND'', tok_start = 0, tok_end = 3\<rparr>]"
  by code_simp

lemma tokenize_ANDROID:
  "tokenize (js ''ANDROID'') =
     [\<lparr>tok_type = Text, tok_value = js ''ANDROID'', tok_start = 0, tok_end = 7\<rparr>]"
  by code_simp

lemma tokenize_x_Or_y:
  "tokenize (js ''x Or y'') =
     [\<lparr>tok_type = Text, tok_value = js ''x'', tok_start = 0, tok_end = 1\<rparr>,
      \<lparr>tok_type = LogicalOperator, tok_value = js ''Or'', tok_start = 2, tok_end = 4\<rparr>,
      \<lparr>tok_type = Text, tok_value = js ''y'', tok_start = 5, tok_end = 6\<rparr>]"
  by code_simp

lemma tokenize_swallow:
  "tokenize (js ''(status = x) = y'') =
     [\<lparr>tok_type = Parenthesis, tok_value = js ''('', tok_start = 0, tok_end = 1\<rparr>,
      \<lparr>tok_type = Key, tok_value = js ''status'', tok_start = 1, tok_end = 7\<rparr>,
      \<lparr>tok_type = Equals, tok_value = js ''='', tok_start = 8, tok_end = 9\<rparr>,
      \<lparr>tok_type = Key, tok_value = js ''x)'', tok_start = 10, tok_end = 12\<rparr>,
      \<lparr>tok_type = Equals, tok_value = js ''='', tok_start = 13, tok_end = 14\<rparr>,
      \<lparr>tok_type = Text, tok_value = js ''y'', tok_start = 15, tok_end = 16\<rparr>]"
  by code_simp

lemma scanStep_k_v:
  "scanStep (js ''k =v'') 0 =
     (1, [\<lparr>tok_type = Key, tok_value = js ''k'', tok_start = 0, tok_end = 1\<rparr>])"
  by code_simp

lemma tokenize_not_x:
  "tokenize (js ''a not b'') =
     [\<lparr>tok_type = Text, tok_value = js ''a'', tok_start = 0, tok_end = 1\<rparr>,
      \<lparr>tok_type = LogicalOperator, tok_value = js ''not'', tok_start = 2, tok_end = 5\<rparr>,
      \<lparr>tok_type = Text, tok_value = js ''b'', tok_start = 6, tok_end = 7\<rparr>]"
  by code_simp


lemma operator_alone:
  assumes "toUpperCase w \<in> set logicalOperators"
  shows "tokenize w =
           [\<lparr>tok_type = LogicalOperator, tok_value = w, tok_start = 0, tok_end = length w\<rparr>]"
proof -
  let ?op = "toUpperCase w"
  have len: "length ?op = length w" by (simp add: toUpperCase_def)
  have "?op \<noteq> []" using assms by (auto simp: logicalOperators_def js_def)
  then have pos: "0 < length w" using len by (cases w) simp_all
  have m: "toUpperCase (substr w 0 (length ?op)) = ?op" by (simp add: len substr_def)
  have st: "scanStep w 0 =
              (0 + length ?op,
               [\<lparr>tok_type = LogicalOperator, tok_value = take (length ?op) (drop 0 w),
                 tok_start = 0, tok_end = 0 + length ?op\<rparr>])"
    by (rule operator_step_accepts [OF assms m]) (simp_all add: len)
  have "tokenize w = snd (scanStep w 0) @ tokenizeLoop w (fst (scanStep w 0)) []"
    unfolding tokenize_def by (rule tokenizeLoop_unfold [OF pos])
  then show ?thesis using st by (simp add: len tokenizeLoop_done)
qed

section \<open>The claims\<close>

text \<open>
  C2. For every input the tokens of \<open>tokenize\<close> are sorted by start, strictly increasing,
  and do not overlap (a token ends at or before the start of every later one); every span
  is non-empty and inside the input (\<open>start < end \<le> length\<close>); and every token's content
  is the substring \<open>text[start:end]\<close>.
\<close>

theorem tokenize_wellformed:
  "sorted_wrt (\<lambda>a b. tok_start a < tok_start b \<and> tok_end a \<le> tok_start b) (tokenize text)
   \<and> (\<forall>t \<in> set (tokenize text).
         tok_start t < tok_end t \<and> tok_end t \<le> length text
         \<and> tok_value t = take (tok_end t - tok_start t) (drop (tok_start t) text))"
proof (intro conjI ballI)
  show "sorted_wrt (\<lambda>a b. tok_start a < tok_start b \<and> tok_end a \<le> tok_start b) (tokenize text)"
    by (rule covers_sorted [OF covers_tokenize])
next
  fix t assume "t \<in> set (tokenize text)"
  note b = covers_bounds [OF covers_tokenize this]
  from b show "tok_start t < tok_end t" by simp
  from b show "tok_end t \<le> length text" by simp
  from b show "tok_value t = take (tok_end t - tok_start t) (drop (tok_start t) text)"
    by (simp add: substring_take_drop)
qed

theorem tokenize_wellformed_witness:
  "sorted_wrt (\<lambda>a b. tok_start a < tok_start b \<and> tok_end a \<le> tok_start b)
     (tokenize (js ''status = active''))
   \<and> tok_value \<lparr>tok_type = Key, tok_value = js ''status'', tok_start = 0, tok_end = 6\<rparr>
       = take (6 - 0) (drop 0 (js ''status = active''))
   \<and> length (tokenize (js ''status = active'')) = 3"
proof -
  let ?k = "\<lparr>tok_type = Key, tok_value = js ''status'', tok_start = 0, tok_end = 6\<rparr>"
  note w = tokenize_wellformed [of "js ''status = active''"]
  have "?k \<in> set (tokenize (js ''status = active''))"
    by (simp add: tokenize_status_active)
  with w have "tok_value ?k = take (tok_end ?k - tok_start ?k) (drop (tok_start ?k) (js ''status = active''))"
    by blast
  then show ?thesis using w by (simp add: tokenize_status_active)
qed



text \<open>
  C10. Every position of the input that no token's span covers holds a whitespace unit: the
  filler the renderer copies between tokens is whitespace only.
\<close>

theorem filler_is_whitespace:
  "p < length text \<Longrightarrow> \<forall>t \<in> set (tokenize text). \<not> (tok_start t \<le> p \<and> p < tok_end t)
     \<Longrightarrow> isWhitespace (text ! p)"
  using covers_gaps [OF covers_tokenize, of p "text"] by simp

theorem filler_is_whitespace_witness: "isWhitespace (js ''status = active'' ! 6)"
proof (rule filler_is_whitespace)
  show "6 < length (js ''status = active'')" by (simp add: js_def)
  show "\<forall>t \<in> set (tokenize (js ''status = active'')). \<not> (tok_start t \<le> 6 \<and> 6 < tok_end t)"
    by (simp add: tokenize_status_active)
qed

text \<open>
  C3. The scan loop terminates on every input: an iteration entered at \<open>i < n\<close> leaves
  the cursor strictly further and at most at \<open>n\<close>; the bare-text run is never empty on a
  unit that is neither whitespace nor special; so the loop is over after at most \<open>n\<close>
  iterations and returns the token sequence, with no error.
\<close>

theorem tokenize_terminates:
  "(i < length text \<longrightarrow> i < fst (scanStep text i) \<and> fst (scanStep text i) \<le> length text)
   \<and> (i < length text \<and> \<not> isWhitespace (text ! i) \<and> \<not> isSpecial (text ! i)
        \<longrightarrow> i < fst (bareText text i))
   \<and> tokenizeFuel (length text) text 0 [] = Some (tokenize text)"
proof (intro conjI impI)
  assume "i < length text"
  then show "i < fst (scanStep text i)" "fst (scanStep text i) \<le> length text"
    using scanStep_advance by simp_all
next
  assume "i < length text \<and> \<not> isWhitespace (text ! i) \<and> \<not> isSpecial (text ! i)"
  then show "i < fst (bareText text i)"
    using scanText_advances [of i "text"] by (simp add: bareText_def Let_def)
next
  show "tokenizeFuel (length text) text 0 [] = Some (tokenize text)"
    by (simp add: tokenizeFuel_enough tokenize_def)
qed

theorem tokenize_terminates_witness:
  "0 < fst (scanStep (js ''a b'') 0) \<and> fst (scanStep (js ''a b'') 0) \<le> length (js ''a b'')
   \<and> 0 < fst (bareText (js ''a b'') 0)
   \<and> tokenizeFuel (length (js ''a b'')) (js ''a b'') 0 [] = Some (tokenize (js ''a b''))"
proof -
  note w = tokenize_terminates [of 0 "js ''a b''"]
  have h: "0 < length (js ''a b'')" "\<not> isWhitespace (js ''a b'' ! 0)"
    "\<not> isSpecial (js ''a b'' ! 0)"
    by (simp_all add: js_def isWhitespace_def isSpecial_def)
  from w h show ?thesis by blast
qed


text \<open>
  C1. For every input, stripping the wrapper tags from the rendered markup and undoing the
  entity escaping gives back the input: the renderer emits, in input order, the escaped
  filler before each token, the escaped content of the token inside its type-tagged
  wrapper, and the escaped trailing filler, and the unescaped pieces concatenate to the
  input.
\<close>

theorem render_roundtrip:
  "unescapeHtml (strip_tags (parseAndHighlight text)) = text
   \<and> parseAndHighlight text = concat (map emitPiece (pieces text (tokenize text) 0))
   \<and> concat (map rawPiece (pieces text (tokenize text) 0)) = text"
proof (intro conjI)
  show p: "parseAndHighlight text = concat (map emitPiece (pieces text (tokenize text) 0))"
    by (simp add: parseAndHighlight_def render_pieces)
  show r: "concat (map rawPiece (pieces text (tokenize text) 0)) = text"
    by (rule pieces_tokenize)
  show "unescapeHtml (strip_tags (parseAndHighlight text)) = text"
    by (simp add: p strip_tags_def stripTags_pieces unescapeHtml_pieces r)
qed

theorem render_roundtrip_witness:
  \<open>unescapeHtml (strip_tags (parseAndHighlight (js ''x="<b> & c"''))) = js ''x="<b> & c"''
   \<and> parseAndHighlight (js ''x="<b> & c"'') =
       js ''<span class="token-key">x</span><span class="token-equals">=</span><span class="token-quote">&quot;&lt;b&gt; &amp; c&quot;</span>''\<close>
proof (rule conjI)
  show \<open>unescapeHtml (strip_tags (parseAndHighlight (js ''x="<b> & c"''))) = js ''x="<b> & c"''\<close>
    by (rule render_roundtrip [THEN conjunct1])
  show \<open>parseAndHighlight (js ''x="<b> & c"'') =
       js ''<span class="token-key">x</span><span class="token-equals">=</span><span class="token-quote">&quot;&lt;b&gt; &amp; c&quot;</span>''\<close>
    by code_simp
qed

text \<open>
  C4. \<open>escapeHtml\<close> replaces exactly the five characters \<open>&\<close>, \<open><\<close>, \<open>>\<close>, the double
  and the single quote by their entities, unit by unit (the ampersand is replaced first, so
  the entities written by the later replacements are not escaped again), and its result holds
  no raw \<open><\<close>, \<open>>\<close> or quote. The renderer passes every piece of input text it inserts,
  filler and token content alike, through it; so \<open><script>\<close> is rendered as
  \<open>&lt;script&gt;\<close>.
\<close>

theorem escapeHtml_everywhere:
  \<open>escapeHtml s =
     concat (map (\<lambda>c. if c = c_amp then js ''&amp;''
                        else if c = c_lt then js ''&lt;''
                        else if c = c_gt then js ''&gt;''
                        else if c = c_dquote then js ''&quot;''
                        else if c = c_squote then js ''&#039;''
                        else [c]) s)
   \<and> c_lt \<notin> set (escapeHtml s) \<and> c_gt \<notin> set (escapeHtml s)
   \<and> c_dquote \<notin> set (escapeHtml s) \<and> c_squote \<notin> set (escapeHtml s)
   \<and> render text tokens = concat (map emitPiece (pieces text tokens 0))
   \<and> parseAndHighlight (js ''<script>'') = js ''<span class="token-text">&lt;script&gt;</span>''\<close>
proof (intro conjI)
  have "escapeChar = (\<lambda>c. if c = c_amp then js ''&amp;''
                        else if c = c_lt then js ''&lt;''
                        else if c = c_gt then js ''&gt;''
                        else if c = c_dquote then js ''&quot;''
                        else if c = c_squote then js ''&#039;''
                        else [c])"
    by (rule ext) (simp only: escapeChar_def)
  then show "escapeHtml s =
     concat (map (\<lambda>c. if c = c_amp then js ''&amp;''
                        else if c = c_lt then js ''&lt;''
                        else if c = c_gt then js ''&gt;''
                        else if c = c_dquote then js ''&quot;''
                        else if c = c_squote then js ''&#039;''
                        else [c]) s)"
    using escapeHtml_concat [of s] by simp
  show "c_lt \<notin> set (escapeHtml s)" "c_gt \<notin> set (escapeHtml s)"
    "c_dquote \<notin> set (escapeHtml s)" "c_squote \<notin> set (escapeHtml s)"
    by (rule escapeHtml_no_markup)+
  show "render text tokens = concat (map emitPiece (pieces text tokens 0))"
    by (rule render_pieces)
  show \<open>parseAndHighlight (js ''<script>'') = js ''<span class="token-text">&lt;script&gt;</span>''\<close>
    by (rule parseAndHighlight_script)
qed

theorem escapeHtml_everywhere_witness:
  \<open>escapeHtml (js ''<&>'') = js ''&lt;&amp;&gt;''
   \<and> c_lt \<notin> set (escapeHtml (js ''<&>''))
   \<and> render (js ''a<b'') [\<lparr>tok_type = Text, tok_value = js ''a<b'', tok_start = 0, tok_end = 3\<rparr>]
       = js ''<span class="token-text">a&lt;b</span>''\<close>
proof -
  note w = escapeHtml_everywhere [of "js ''<&>''" "js ''a<b''"
      "[\<lparr>tok_type = Text, tok_value = js ''a<b'', tok_start = 0, tok_end = 3\<rparr>]"]
  have e: \<open>escapeHtml (js ''a<b'') = js ''a&lt;b''\<close> by code_simp
  have "escapeHtml (js ''<&>'') = js ''&lt;&amp;&gt;''"
    using w by (simp add: js_def)
  moreover have "c_lt \<notin> set (escapeHtml (js ''<&>''))" using w by blast
  moreover have \<open>render (js ''a<b'') [\<lparr>tok_type = Text, tok_value = js ''a<b'', tok_start = 0, tok_end = 3\<rparr>]
       = js ''<span class="token-text">a&lt;b</span>''\<close>
    using w e by (simp add: spanOpen_def spanClose_def typeName_def js_def)
  ultimately show ?thesis by blast
qed

text \<open>
  C5. On a quote character (\<open>"\<close>, \<open>'\<close> or the right double quotation mark) the scan
  emits one quote token: it ends at the first later occurrence of the same quote character
  whose preceding unit is not a backslash and spans the opening through the closing quote;
  when there is no such occurrence it spans from the opening quote to the end of the input.
  In \<open>key="a \"b\" c"\<close> the quote token takes in both escaped quotes and closes at the
  last one; \<open>key="open\<close> gives a quote token up to the end of the input.
\<close>

theorem quote_rule:
  assumes "i < length text" and "text ! i = q"
    and "q = c_dquote \<or> q = c_squote \<or> q = c_rdquote"
  shows \<open>(\<forall>j. i < j \<and> j < length text \<and> closesAt text q j
             \<and> (\<forall>k. i < k \<and> k < j \<longrightarrow> \<not> closesAt text q k)
           \<longrightarrow> scanStep text i =
                 (j + 1, [\<lparr>tok_type = Quote, tok_value = take (j + 1 - i) (drop i text),
                           tok_start = i, tok_end = j + 1\<rparr>]))
         \<and> ((\<forall>j. i < j \<and> j < length text \<longrightarrow> \<not> closesAt text q j)
           \<longrightarrow> scanStep text i =
                 (length text, [\<lparr>tok_type = Quote, tok_value = drop i text,
                                 tok_start = i, tok_end = length text\<rparr>]))
         \<and> tokenize (js ''key="a '' @ c_backslash # js ''"b'' @ c_backslash # js ''" c"'') =
             [\<lparr>tok_type = Key, tok_value = js ''key'', tok_start = 0, tok_end = 3\<rparr>,
              \<lparr>tok_type = Equals, tok_value = js ''='', tok_start = 3, tok_end = 4\<rparr>,
              \<lparr>tok_type = Quote,
                tok_value = js ''"a '' @ c_backslash # js ''"b'' @ c_backslash # js ''" c"'',
                tok_start = 4, tok_end = 15\<rparr>]
         \<and> tokenize (js ''key="open'') =
             [\<lparr>tok_type = Key, tok_value = js ''key'', tok_start = 0, tok_end = 3\<rparr>,
              \<lparr>tok_type = Equals, tok_value = js ''='', tok_start = 3, tok_end = 4\<rparr>,
              \<lparr>tok_type = Quote, tok_value = js ''"open'', tok_start = 4, tok_end = 9\<rparr>]\<close>
proof (intro conjI allI impI)
  fix j
  assume "i < j \<and> j < length text \<and> closesAt text q j
             \<and> (\<forall>k. i < k \<and> k < j \<longrightarrow> \<not> closesAt text q k)"
  then show "scanStep text i =
                 (j + 1, [\<lparr>tok_type = Quote, tok_value = take (j + 1 - i) (drop i text),
                           tok_start = i, tok_end = j + 1\<rparr>])"
    using quote_step_closed [OF assms, of j] by blast
next
  assume "\<forall>j. i < j \<and> j < length text \<longrightarrow> \<not> closesAt text q j"
  then show "scanStep text i =
                 (length text, [\<lparr>tok_type = Quote, tok_value = drop i text,
                                 tok_start = i, tok_end = length text\<rparr>])"
    by (rule quote_step_open [OF assms])
next
  show \<open>tokenize (js ''key="a '' @ c_backslash # js ''"b'' @ c_backslash # js ''" c"'') =
             [\<lparr>tok_type = Key, tok_value = js ''key'', tok_start = 0, tok_end = 3\<rparr>,
              \<lparr>tok_type = Equals, tok_value = js ''='', tok_start = 3, tok_end = 4\<rparr>,
              \<lparr>tok_type = Quote,
                tok_value = js ''"a '' @ c_backslash # js ''"b'' @ c_backslash # js ''" c"'',
                tok_start = 4, tok_end = 15\<rparr>]\<close>
    by (rule tokenize_escaped_quote)
next
  show \<open>tokenize (js ''key="open'') =
             [\<lparr>tok_type = Key, tok_value = js ''key'', tok_start = 0, tok_end = 3\<rparr>,
              \<lparr>tok_type = Equals, tok_value = js ''='', tok_start = 3, tok_end = 4\<rparr>,
              \<lparr>tok_type = Quote, tok_value = js ''"open'', tok_start = 4, tok_end = 9\<rparr>]\<close>
    by (rule tokenize_open_quote)
qed

theorem quote_rule_witness:
  \<open>scanStep (js ''"a" b'') 0 =
     (3, [\<lparr>tok_type = Quote, tok_value = js ''"a"'', tok_start = 0, tok_end = 3\<rparr>])
   \<and> scanStep (js ''"a'') 0 =
     (2, [\<lparr>tok_type = Quote, tok_value = js ''"a'', tok_start = 0, tok_end = 2\<rparr>])\<close>
proof (rule conjI)
  let ?t = \<open>js ''"a" b''\<close>
  have h: "0 < length ?t" "?t ! 0 = c_dquote" by (simp_all add: js_def)
  have c: "0 < (2::nat) \<and> 2 < length ?t \<and> closesAt ?t c_dquote 2
             \<and> (\<forall>k. 0 < k \<and> k < 2 \<longrightarrow> \<not> closesAt ?t c_dquote k)"
  proof (intro conjI allI impI)
    fix k :: nat assume "0 < k \<and> k < 2"
    then have "k = 1" by arith
    then show "\<not> closesAt ?t c_dquote k" by (simp add: closesAt_def js_def)
  qed (simp_all add: closesAt_def js_def)
  from quote_rule [OF h(1) h(2), THEN conjunct1] c
  have "scanStep ?t 0 =
          (2 + 1, [\<lparr>tok_type = Quote, tok_value = take (2 + 1 - 0) (drop 0 ?t),
                           tok_start = 0, tok_end = 2 + 1\<rparr>])"
    by blast
  then show "scanStep ?t 0 =
     (3, [\<lparr>tok_type = Quote, tok_value = js ''\"a\"'', tok_start = 0, tok_end = 3\<rparr>])"
    by (simp add: js_def)
next
  let ?t = \<open>js ''"a''\<close>
  have h: "0 < length ?t" "?t ! 0 = c_dquote" by (simp_all add: js_def)
  have c: "\<forall>j. 0 < j \<and> j < length ?t \<longrightarrow> \<not> closesAt ?t c_dquote j"
  proof (intro allI impI)
    fix j :: nat assume "0 < j \<and> j < length ?t"
    then have "j = 1" by (simp add: js_def)
    then show "\<not> closesAt ?t c_dquote j" by (simp add: closesAt_def js_def)
  qed
  from quote_rule [OF h(1) h(2), THEN conjunct2, THEN conjunct1] c
  have "scanStep ?t 0 =
          (length ?t, [\<lparr>tok_type = Quote, tok_value = drop 0 ?t,
                           tok_start = 0, tok_end = length ?t\<rparr>])"
    by blast
  then show "scanStep ?t 0 =
     (2, [\<lparr>tok_type = Quote, tok_value = js ''\"a'', tok_start = 0, tok_end = 2\<rparr>])"
    by (simp add: js_def)
qed

text \<open>
  C6. A logical-operator token is one of \<open>AND\<close>, \<open>OR\<close>, \<open>NOT\<close> in any casing, with the
  casing and length of the input, and stands as a whole word: the unit before it, if any,
  is whitespace and the unit after it, if any, is whitespace. Conversely, wherever one of
  the three words, in any casing, stands at the cursor as a whole word, the iteration emits
  it as a logical-operator token and moves the cursor past it; so each of the three words
  alone, in any casing, gives one logical-operator token. \<open>AND\<close> alone gives one
  logical-operator token, \<open>ANDROID\<close> one text token.
\<close>

theorem operator_whole_word:
  "(\<forall>t \<in> set (tokenize text). tok_type t = LogicalOperator \<longrightarrow>
       toUpperCase (tok_value t) \<in> set logicalOperators
       \<and> tok_value t = take (tok_end t - tok_start t) (drop (tok_start t) text)
       \<and> (tok_start t = 0 \<or> isWhitespace (text ! (tok_start t - 1)))
       \<and> (tok_end t = length text \<or> isWhitespace (text ! tok_end t)))
   \<and> logicalOperators = [js ''AND'', js ''OR'', js ''NOT'']
   \<and> tokenize (js ''AND'') =
       [\<lparr>tok_type = LogicalOperator, tok_value = js ''AND'', tok_start = 0, tok_end = 3\<rparr>]
   \<and> tokenize (js ''ANDROID'') =
       [\<lparr>tok_type = Text, tok_value = js ''ANDROID'', tok_start = 0, tok_end = 7\<rparr>]
   \<and> tokenize (js ''x Or y'') =
       [\<lparr>tok_type = Text, tok_value = js ''x'', tok_start = 0, tok_end = 1\<rparr>,
        \<lparr>tok_type = LogicalOperator, tok_value = js ''Or'', tok_start = 2, tok_end = 4\<rparr>,
        \<lparr>tok_type = Text, tok_value = js ''y'', tok_start = 5, tok_end = 6\<rparr>]
   \<and> (\<forall>op \<in> set logicalOperators.
         toUpperCase (substr text i (length op)) = op
         \<and> (i = 0 \<or> isWhitespace (text ! (i - 1)))
         \<and> (i + length op \<ge> length text \<or> isWhitespace (text ! (i + length op)))
         \<longrightarrow> scanStep text i =
               (i + length op,
                [\<lparr>tok_type = LogicalOperator, tok_value = take (length op) (drop i text),
                  tok_start = i, tok_end = i + length op\<rparr>]))
   \<and> (toUpperCase w \<in> set logicalOperators \<longrightarrow>
         tokenize w =
           [\<lparr>tok_type = LogicalOperator, tok_value = w, tok_start = 0, tok_end = length w\<rparr>])
   \<and> tokenize (js ''a not b'') =
       [\<lparr>tok_type = Text, tok_value = js ''a'', tok_start = 0, tok_end = 1\<rparr>,
        \<lparr>tok_type = LogicalOperator, tok_value = js ''not'', tok_start = 2, tok_end = 5\<rparr>,
        \<lparr>tok_type = Text, tok_value = js ''b'', tok_start = 6, tok_end = 7\<rparr>]"
proof (intro conjI ballI impI)
  fix t assume t: "t \<in> set (tokenize text)" and op: "tok_type t = LogicalOperator"
  from t obtain j where j: "j < length text" "t \<in> set (snd (scanStep text j))"
    using tokens_from_steps [of t "text" 0] by (auto simp: tokenize_def)
  note o = operator_step [OF j op]
  note b = covers_bounds [OF covers_tokenize t]
  from o show "toUpperCase (tok_value t) \<in> set logicalOperators" by simp
  from b show "tok_value t = take (tok_end t - tok_start t) (drop (tok_start t) text)"
    by (simp add: substring_take_drop)
  from o show "tok_start t = 0 \<or> isWhitespace (text ! (tok_start t - 1))" by simp
  from o show "tok_end t = length text \<or> isWhitespace (text ! tok_end t)" by simp
next
  show "logicalOperators = [js ''AND'', js ''OR'', js ''NOT'']" by (rule logicalOperators_def)
  show "tokenize (js ''AND'') =
       [\<lparr>tok_type = LogicalOperator, tok_value = js ''AND'', tok_start = 0, tok_end = 3\<rparr>]"
    by (rule tokenize_AND)
  show "tokenize (js ''ANDROID'') =
       [\<lparr>tok_type = Text, tok_value = js ''ANDROID'', tok_start = 0, tok_end = 7\<rparr>]"
    by (rule tokenize_ANDROID)
  show "tokenize (js ''x Or y'') =
       [\<lparr>tok_type = Text, tok_value = js ''x'', tok_start = 0, tok_end = 1\<rparr>,
        \<lparr>tok_type = LogicalOperator, tok_value = js ''Or'', tok_start = 2, tok_end = 4\<rparr>,
        \<lparr>tok_type = Text, tok_value = js ''y'', tok_start = 5, tok_end = 6\<rparr>]"
    by (rule tokenize_x_Or_y)
  show "tokenize (js ''a not b'') =
       [\<lparr>tok_type = Text, tok_value = js ''a'', tok_start = 0, tok_end = 1\<rparr>,
        \<lparr>tok_type = LogicalOperator, tok_value = js ''not'', tok_start = 2, tok_end = 5\<rparr>,
        \<lparr>tok_type = Text, tok_value = js ''b'', tok_start = 6, tok_end = 7\<rparr>]"
    by (rule tokenize_not_x)
next
  fix op
  assume "op \<in> set logicalOperators"
    and "toUpperCase (substr text i (length op)) = op
         \<and> (i = 0 \<or> isWhitespace (text ! (i - 1)))
         \<and> (i + length op \<ge> length text \<or> isWhitespace (text ! (i + length op)))"
  then show "scanStep text i =
               (i + length op,
                [\<lparr>tok_type = LogicalOperator, tok_value = take (length op) (drop i text),
                  tok_start = i, tok_end = i + length op\<rparr>])"
    using operator_step_accepts [of op "text" i] by blast
next
  assume "toUpperCase w \<in> set logicalOperators"
  then show "tokenize w =
           [\<lparr>tok_type = LogicalOperator, tok_value = w, tok_start = 0, tok_end = length w\<rparr>]"
    by (rule operator_alone)
qed

theorem operator_whole_word_witness:
  "toUpperCase (js ''Or'') \<in> set logicalOperators
   \<and> isWhitespace (js ''x Or y'' ! 1) \<and> isWhitespace (js ''x Or y'' ! 4)
   \<and> scanStep (js ''a not b'') 2 =
       (5, [\<lparr>tok_type = LogicalOperator, tok_value = js ''not'', tok_start = 2, tok_end = 5\<rparr>])
   \<and> tokenize (js ''nOt'') =
       [\<lparr>tok_type = LogicalOperator, tok_value = js ''nOt'', tok_start = 0, tok_end = 3\<rparr>]"
proof -
  let ?t = "\<lparr>tok_type = LogicalOperator, tok_value = js ''Or'', tok_start = 2, tok_end = 4\<rparr>"
  note w = operator_whole_word [of "js ''x Or y''"]
  note v = operator_whole_word [of "js ''a not b''" 2 "js ''nOt''"]
  have m: "?t \<in> set (tokenize (js ''x Or y''))" by (simp add: tokenize_x_Or_y)
  have ty: "tok_type ?t = LogicalOperator" by simp
  from w [THEN conjunct1] m ty
  have "toUpperCase (tok_value ?t) \<in> set logicalOperators
       \<and> tok_value ?t = take (tok_end ?t - tok_start ?t) (drop (tok_start ?t) (js ''x Or y''))
       \<and> (tok_start ?t = 0 \<or> isWhitespace (js ''x Or y'' ! (tok_start ?t - 1)))
       \<and> (tok_end ?t = length (js ''x Or y'') \<or> isWhitespace (js ''x Or y'' ! tok_end ?t))"
    by blast
  then have a: "toUpperCase (js ''Or'') \<in> set logicalOperators
   \<and> isWhitespace (js ''x Or y'' ! 1) \<and> isWhitespace (js ''x Or y'' ! 4)"
    by (simp add: js_def)
  have n: "js ''NOT'' \<in> set logicalOperators" by (simp add: logicalOperators_def)
  have h: "toUpperCase (substr (js ''a not b'') 2 (length (js ''NOT''))) = js ''NOT''
         \<and> (2 = (0::nat) \<or> isWhitespace (js ''a not b'' ! (2 - 1)))
         \<and> (2 + length (js ''NOT'') \<ge> length (js ''a not b'')
             \<or> isWhitespace (js ''a not b'' ! (2 + length (js ''NOT''))))"
    by (simp add: js_def toUpperCase_def toUpperCase_cu_def substr_def isWhitespace_def)
  from v n h
  have "scanStep (js ''a not b'') 2 =
               (2 + length (js ''NOT''),
                [\<lparr>tok_type = LogicalOperator,
                  tok_value = take (length (js ''NOT'')) (drop 2 (js ''a not b'')),
                  tok_start = 2, tok_end = 2 + length (js ''NOT'')\<rparr>])"
    by blast
  then have b: "scanStep (js ''a not b'') 2 =
       (5, [\<lparr>tok_type = LogicalOperator, tok_value = js ''not'', tok_start = 2, tok_end = 5\<rparr>])"
    by (simp add: js_def)
  have "toUpperCase (js ''nOt'') \<in> set logicalOperators"
    by (simp add: js_def toUpperCase_def toUpperCase_cu_def logicalOperators_def)
  with v have "tokenize (js ''nOt'') =
           [\<lparr>tok_type = LogicalOperator, tok_value = js ''nOt'', tok_start = 0,
             tok_end = length (js ''nOt'')\<rparr>]"
    by blast
  then have c: "tokenize (js ''nOt'') =
       [\<lparr>tok_type = LogicalOperator, tok_value = js ''nOt'', tok_start = 0, tok_end = 3\<rparr>]"
    by (simp add: js_def)
  from a b c show ?thesis by blast
qed

text \<open>
  C7 as stated fails where the operator rule accepts a word at the cursor: in
  \<open>NOT a=b\<close> the cursor at 0 sits on a unit that is neither whitespace nor special, an
  equals sign follows, and the scan emits the logical-operator token \<open>NOT\<close>, not a key.
\<close>

theorem key_rule_counterexample:
  "\<not> isWhitespace (js ''NOT a=b'' ! 0) \<and> \<not> isSpecial (js ''NOT a=b'' ! 0)
   \<and> js ''NOT a=b'' ! 5 = c_equals
   \<and> scanStep (js ''NOT a=b'') 0 =
       (3, [\<lparr>tok_type = LogicalOperator, tok_value = js ''NOT'', tok_start = 0, tok_end = 3\<rparr>])
   \<and> tokenize (js ''NOT a=b'') =
       [\<lparr>tok_type = LogicalOperator, tok_value = js ''NOT'', tok_start = 0, tok_end = 3\<rparr>,
        \<lparr>tok_type = Key, tok_value = js ''a'', tok_start = 4, tok_end = 5\<rparr>,
        \<lparr>tok_type = Equals, tok_value = js ''='', tok_start = 5, tok_end = 6\<rparr>,
        \<lparr>tok_type = Text, tok_value = js ''b'', tok_start = 6, tok_end = 7\<rparr>]"
  by code_simp

text \<open>
  C7, amended. When the cursor sits on a unit that is neither whitespace nor special, no
  logical operator is accepted at the cursor, and \<open>p\<close> is the position of the next equals
  sign, the scan emits a key token from the cursor to \<open>e\<close>, the span up to \<open>p\<close> without
  the whitespace right before \<open>p\<close> (non-empty), and moves the cursor to \<open>e\<close>. So
  \<open>status = active\<close> gives the key \<open>status\<close>, the equals token and the text
  \<open>active\<close>.
\<close>

theorem key_rule:
  assumes "i < length text" and "\<not> isWhitespace (text ! i)" and "\<not> isSpecial (text ! i)"
    and "matchOperator text i logicalOperators = None"
    and "i < p" and "p < length text" and "text ! p = c_equals"
    and "\<forall>k. i < k \<and> k < p \<longrightarrow> text ! k \<noteq> c_equals"
  shows "(\<exists>e. i < e \<and> e \<le> p \<and> \<not> isWhitespace (text ! (e - 1))
            \<and> (\<forall>k. e \<le> k \<and> k < p \<longrightarrow> isWhitespace (text ! k))
            \<and> scanStep text i =
                (e, [\<lparr>tok_type = Key, tok_value = take (e - i) (drop i text),
                       tok_start = i, tok_end = e\<rparr>]))
         \<and> tokenize (js ''status = active'') =
             [\<lparr>tok_type = Key, tok_value = js ''status'', tok_start = 0, tok_end = 6\<rparr>,
              \<lparr>tok_type = Equals, tok_value = js ''='', tok_start = 7, tok_end = 8\<rparr>,
              \<lparr>tok_type = Text, tok_value = js ''active'', tok_start = 9, tok_end = 15\<rparr>]"
proof (rule conjI)
  from key_step [OF assms]
  show "\<exists>e. i < e \<and> e \<le> p \<and> \<not> isWhitespace (text ! (e - 1))
            \<and> (\<forall>k. e \<le> k \<and> k < p \<longrightarrow> isWhitespace (text ! k))
            \<and> scanStep text i =
                (e, [\<lparr>tok_type = Key, tok_value = take (e - i) (drop i text),
                       tok_start = i, tok_end = e\<rparr>])"
    by (intro exI [of _ "trimKey text i p"]) simp
next
  show "tokenize (js ''status = active'') =
             [\<lparr>tok_type = Key, tok_value = js ''status'', tok_start = 0, tok_end = 6\<rparr>,
              \<lparr>tok_type = Equals, tok_value = js ''='', tok_start = 7, tok_end = 8\<rparr>,
              \<lparr>tok_type = Text, tok_value = js ''active'', tok_start = 9, tok_end = 15\<rparr>]"
    by (rule tokenize_status_active)
qed

theorem key_rule_witness:
  "scanStep (js ''k =v'') 0 =
     (1, [\<lparr>tok_type = Key, tok_value = js ''k'', tok_start = 0, tok_end = 1\<rparr>])
   \<and> \<not> isWhitespace (js ''k =v'' ! (1 - 1)) \<and> isWhitespace (js ''k =v'' ! 1)"
proof -
  let ?t = "js ''k =v''"
  have h: "0 < length ?t" "\<not> isWhitespace (?t ! 0)" "\<not> isSpecial (?t ! 0)"
    "(0::nat) < 2" "2 < length ?t" "?t ! 2 = c_equals"
    by (simp_all add: js_def isWhitespace_def isSpecial_def)
  have m: "matchOperator ?t 0 logicalOperators = None" by code_simp
  have f: "\<forall>k. 0 < k \<and> k < 2 \<longrightarrow> ?t ! k \<noteq> c_equals"
  proof (intro allI impI)
    fix k :: nat assume "0 < k \<and> k < 2"
    then have "k = 1" by arith
    then show "?t ! k \<noteq> c_equals" by (simp add: js_def)
  qed
  from key_rule [OF h(1) h(2) h(3) m h(4) h(5) h(6) f, THEN conjunct1]
  obtain e where e: "0 < e" "e \<le> 2" "\<not> isWhitespace (?t ! (e - 1))"
    "\<forall>k. e \<le> k \<and> k < 2 \<longrightarrow> isWhitespace (?t ! k)"
    "scanStep ?t 0 = (e, [\<lparr>tok_type = Key, tok_value = take (e - 0) (drop 0 ?t),
                       tok_start = 0, tok_end = e\<rparr>])"
    by blast
  from e(5) have e1: "e = 1" by (simp add: scanStep_k_v)
  have w1: "isWhitespace (?t ! 1)" using e(4) [rule_format, of 1] e1 by simp
  have w0: "\<not> isWhitespace (?t ! (1 - 1))" using e(3) e1 by simp
  from w0 w1 scanStep_k_v show ?thesis by blast
qed

text \<open>
  C8. The key lookahead does not look at what lies between the cursor and the next equals
  sign: whatever units \<open>mid\<close> follow the cursor before it (parentheses, quotes, operators)
  become part of the key. In \<open>(status = x) = y\<close> the key after the first equals token is
  \<open>x)\<close>, and the closing parenthesis gets no parenthesis token.
\<close>

theorem key_lookahead_swallows:
  "(\<not> isWhitespace x \<and> \<not> isSpecial x
      \<and> matchOperator (x # mid @ c_equals # rest) 0 logicalOperators = None
      \<and> c_equals \<notin> set mid \<and> \<not> isWhitespace (last (x # mid))
    \<longrightarrow> scanStep (x # mid @ c_equals # rest) 0 =
          (Suc (length mid),
           [\<lparr>tok_type = Key, tok_value = x # mid, tok_start = 0,
             tok_end = Suc (length mid)\<rparr>]))
   \<and> tokenize (js ''(status = x) = y'') =
       [\<lparr>tok_type = Parenthesis, tok_value = js ''('', tok_start = 0, tok_end = 1\<rparr>,
        \<lparr>tok_type = Key, tok_value = js ''status'', tok_start = 1, tok_end = 7\<rparr>,
        \<lparr>tok_type = Equals, tok_value = js ''='', tok_start = 8, tok_end = 9\<rparr>,
        \<lparr>tok_type = Key, tok_value = js ''x)'', tok_start = 10, tok_end = 12\<rparr>,
        \<lparr>tok_type = Equals, tok_value = js ''='', tok_start = 13, tok_end = 14\<rparr>,
        \<lparr>tok_type = Text, tok_value = js ''y'', tok_start = 15, tok_end = 16\<rparr>]
   \<and> filter (\<lambda>t. tok_type t = Parenthesis) (tokenize (js ''(status = x) = y'')) =
       [\<lparr>tok_type = Parenthesis, tok_value = js ''('', tok_start = 0, tok_end = 1\<rparr>]"
proof (intro conjI impI)
  assume "\<not> isWhitespace x \<and> \<not> isSpecial x
      \<and> matchOperator (x # mid @ c_equals # rest) 0 logicalOperators = None
      \<and> c_equals \<notin> set mid \<and> \<not> isWhitespace (last (x # mid))"
  then show "scanStep (x # mid @ c_equals # rest) 0 =
          (Suc (length mid),
           [\<lparr>tok_type = Key, tok_value = x # mid, tok_start = 0,
             tok_end = Suc (length mid)\<rparr>])"
    using key_step_untrimmed [of x mid rest] by blast
next
  show "tokenize (js ''(status = x) = y'') =
       [\<lparr>tok_type = Parenthesis, tok_value = js ''('', tok_start = 0, tok_end = 1\<rparr>,
        \<lparr>tok_type = Key, tok_value = js ''status'', tok_start = 1, tok_end = 7\<rparr>,
        \<lparr>tok_type = Equals, tok_value = js ''='', tok_start = 8, tok_end = 9\<rparr>,
        \<lparr>tok_type = Key, tok_value = js ''x)'', tok_start = 10, tok_end = 12\<rparr>,
        \<lparr>tok_type = Equals, tok_value = js ''='', tok_start = 13, tok_end = 14\<rparr>,
        \<lparr>tok_type = Text, tok_value = js ''y'', tok_start = 15, tok_end = 16\<rparr>]"
    by (rule tokenize_swallow)
  show "filter (\<lambda>t. tok_type t = Parenthesis) (tokenize (js ''(status = x) = y'')) =
       [\<lparr>tok_type = Parenthesis, tok_value = js ''('', tok_start = 0, tok_end = 1\<rparr>]"
    by (simp add: tokenize_swallow)
qed

theorem key_lookahead_swallows_witness:
  "scanStep (js ''x) AND (=y'') 0 =
     (8, [\<lparr>tok_type = Key, tok_value = js ''x) AND ('', tok_start = 0, tok_end = 8\<rparr>])"
proof -
  have m: "matchOperator (js ''x) AND (=y'') 0 logicalOperators = None" by code_simp
  have t: "js ''x) AND (=y'' = 0x78 # js '') AND ('' @ c_equals # js ''y''"
    by (simp add: js_def)
  have h: "\<not> isWhitespace (0x78 :: cu) \<and> \<not> isSpecial (0x78 :: cu)
      \<and> matchOperator (0x78 # js '') AND ('' @ c_equals # js ''y'') 0 logicalOperators = None
      \<and> c_equals \<notin> set (js '') AND ('') \<and> \<not> isWhitespace (last (0x78 # js '') AND (''))"
    using m unfolding t by (simp add: js_def isWhitespace_def isSpecial_def)
  from key_lookahead_swallows [of "0x78" "js '') AND (''" "js ''y''", THEN conjunct1] h
  have "scanStep (0x78 # js '') AND ('' @ c_equals # js ''y'') 0 =
          (Suc (length (js '') AND ('')),
           [\<lparr>tok_type = Key, tok_value = 0x78 # js '') AND ('', tok_start = 0,
             tok_end = Suc (length (js '') AND (''))\<rparr>])"
    by blast
  then show ?thesis unfolding t by (simp add: js_def)
qed

end
